theory Spec2Isabelle
  imports Main "HOL-Library.Word" "HOL-Library.List_Lexorder" "HOL-Library.Multiset"
begin

unbundle bit_operations_syntax

section \<open>Bytes and Go strings\<close>

text \<open>
  A Go \<^verbatim>\<open>string\<close> and a \<^verbatim>\<open>[]byte\<close> are both sequences of bytes. The order of
  \<^verbatim>\<open>sort.Strings\<close> is the lexicographic order of the unsigned bytes, which is the
  order of lists over the linear order of \<^typ>\<open>8 word\<close>.
\<close>

type_synonym byte = "8 word"
type_synonym gostring = "byte list"

section \<open>The 64-bit streaming hash (package xxhash, \<^verbatim>\<open>xxhash.New()\<close>)\<close>

text \<open>
  \<^verbatim>\<open>hash.go\<close> imports \<^verbatim>\<open>github.com/cespare/xxhash/v2\<close>, a dependency outside this
  repository. Its \<^verbatim>\<open>Digest\<close> is an implementation of XXH64 with seed 0 whose
  \<^verbatim>\<open>Sum64\<close> depends only on the concatenation of all bytes written since the last
  \<^verbatim>\<open>Reset\<close>. The accumulator is therefore represented by that byte sequence, and
  \<open>Sum64\<close> is the XXH64 function of it.
\<close>

definition prime1 :: "64 word" where "prime1 = 11400714785074694791"
definition prime2 :: "64 word" where "prime2 = 14029467366897019727"
definition prime3 :: "64 word" where "prime3 = 1609587929392839161"
definition prime4 :: "64 word" where "prime4 = 9650029242287828579"
definition prime5 :: "64 word" where "prime5 = 2870177450012600261"

definition rol :: "nat \<Rightarrow> 64 word \<Rightarrow> 64 word" where
  "rol r x = push_bit r x OR drop_bit (64 - r) x"

definition xxh_round :: "64 word \<Rightarrow> 64 word \<Rightarrow> 64 word" where
  "xxh_round acc input = rol 31 (acc + input * prime2) * prime1"

definition mergeRound :: "64 word \<Rightarrow> 64 word \<Rightarrow> 64 word" where
  "mergeRound acc val = (acc XOR xxh_round 0 val) * prime1 + prime4"

text \<open>Little-endian reading of a byte sequence (\<^verbatim>\<open>binary.LittleEndian\<close>).\<close>

fun le_word :: "byte list \<Rightarrow> 64 word" where
  "le_word [] = 0"
| "le_word (b # bs) = ucast b OR push_bit 8 (le_word bs)"

definition u64 :: "byte list \<Rightarrow> 64 word" where
  "u64 b = le_word (take 8 b)"

definition u32 :: "byte list \<Rightarrow> 64 word" where
  "u32 b = le_word (take 4 b)"

text \<open>The main loop over 32-byte stripes, run while at least 32 bytes remain.\<close>

fun stripes :: "64 word \<times> 64 word \<times> 64 word \<times> 64 word \<Rightarrow> byte list
    \<Rightarrow> (64 word \<times> 64 word \<times> 64 word \<times> 64 word) \<times> byte list" where
  "stripes (v1, v2, v3, v4) b =
     (if 32 \<le> length b
      then stripes (xxh_round v1 (u64 b), xxh_round v2 (u64 (drop 8 b)),
                    xxh_round v3 (u64 (drop 16 b)), xxh_round v4 (u64 (drop 24 b))) (drop 32 b)
      else ((v1, v2, v3, v4), b))"

text \<open>The tail: 8-byte words, then at most one 4-byte word, then single bytes.\<close>

fun tail8 :: "64 word \<Rightarrow> byte list \<Rightarrow> 64 word \<times> byte list" where
  "tail8 acc b =
     (if 8 \<le> length b
      then tail8 (rol 27 (acc XOR xxh_round 0 (u64 b)) * prime1 + prime4) (drop 8 b)
      else (acc, b))"

definition tail4 :: "64 word \<Rightarrow> byte list \<Rightarrow> 64 word \<times> byte list" where
  "tail4 acc b =
     (if 4 \<le> length b
      then (rol 23 (acc XOR u32 b * prime1) * prime2 + prime3, drop 4 b)
      else (acc, b))"

fun tail1 :: "64 word \<Rightarrow> byte list \<Rightarrow> 64 word" where
  "tail1 acc [] = acc"
| "tail1 acc (x # b) = tail1 (rol 11 (acc XOR ucast x * prime5) * prime1) b"

definition avalanche :: "64 word \<Rightarrow> 64 word" where
  "avalanche h0 =
     (let h1 = (h0 XOR drop_bit 33 h0) * prime2;
          h2 = (h1 XOR drop_bit 29 h1) * prime3
      in h2 XOR drop_bit 32 h2)"

definition Sum64 :: "byte list \<Rightarrow> 64 word" where
  "Sum64 b =
     (let (h0, r0) =
            (if 32 \<le> length b
             then (case stripes (prime1 + prime2, prime2, 0, - prime1) b of
                     ((v1, v2, v3, v4), r) \<Rightarrow>
                       (mergeRound (mergeRound (mergeRound (mergeRound
                          (rol 1 v1 + rol 7 v2 + rol 12 v3 + rol 18 v4) v1) v2) v3) v4, r))
             else (prime5, b));
          (h1, r1) = tail8 (h0 + of_nat (length b)) r0;
          (h2, r2) = tail4 h1 r1
      in avalanche (tail1 h2 r2))"

text \<open>
  \<^verbatim>\<open>Digest.Sum(b)\<close> appends the eight bytes of \<open>Sum64\<close>, most significant byte first,
  to \<open>b\<close> and leaves the accumulator unchanged.
\<close>

definition be_bytes :: "64 word \<Rightarrow> byte list" where
  "be_bytes s = map (\<lambda>i. ucast (drop_bit (8 * i) s)) [7, 6, 5, 4, 3, 2, 1, 0]"

definition Digest_Sum :: "byte list \<Rightarrow> byte list \<Rightarrow> byte list" where
  "Digest_Sum b acc = b @ be_bytes (Sum64 acc)"

text \<open>\<^verbatim>\<open>binary.LittleEndian.PutUint64\<close> writes these eight bytes.\<close>

definition le_bytes :: "64 word \<Rightarrow> byte list" where
  "le_bytes s = map (\<lambda>i. ucast (drop_bit (8 * i) s)) [0, 1, 2, 3, 4, 5, 6, 7]"

section \<open>Marker bytes (\<^verbatim>\<open>hash.go\<close>, lines 28 to 42)\<close>

definition extraByte :: "byte list" where "extraByte = [0xf3]"
definition keyPrefix :: "byte list" where "keyPrefix = [0xf4]"
definition valEmpty :: "byte list" where "valEmpty = [0xf5]"
definition valBytesPrefix :: "byte list" where "valBytesPrefix = [0xf6]"
definition valStrPrefix :: "byte list" where "valStrPrefix = [0xf7]"
definition valBoolTrue :: "byte list" where "valBoolTrue = [0xf8]"
definition valBoolFalse :: "byte list" where "valBoolFalse = [0xf9]"
definition valIntPrefix :: "byte list" where "valIntPrefix = [0xfa]"
definition valDoublePrefix :: "byte list" where "valDoublePrefix = [0xfb]"
definition valMapPrefix :: "byte list" where "valMapPrefix = [0xfc]"
definition valMapSuffix :: "byte list" where "valMapSuffix = [0xfd]"
definition valSlicePrefix :: "byte list" where "valSlicePrefix = [0xfe]"
definition valSliceSuffix :: "byte list" where "valSliceSuffix = [0xff]"

lemmas marker_defs =
  extraByte_def keyPrefix_def valEmpty_def valBytesPrefix_def valStrPrefix_def
  valBoolTrue_def valBoolFalse_def valIntPrefix_def valDoublePrefix_def
  valMapPrefix_def valMapSuffix_def valSlicePrefix_def valSliceSuffix_def

section \<open>Values (\<^verbatim>\<open>pcommon.Value\<close>, \<^verbatim>\<open>pcommon.Map\<close>, \<^verbatim>\<open>pcommon.Slice\<close>)\<close>

text \<open>
  A value is what \<^verbatim>\<open>writeValueHash\<close> can observe of a \<^verbatim>\<open>pcommon.Value\<close>: its
  \<^verbatim>\<open>Type()\<close> and the payload of that type. An \<^verbatim>\<open>int64\<close> is kept as the 64-bit word
  \<^verbatim>\<open>uint64(v.Int())\<close>, a \<^verbatim>\<open>float64\<close> as the word \<^verbatim>\<open>math.Float64bits(v.Double())\<close>.
  A map is the sequence of its key/value entries in insertion order, which is the
  order of \<^verbatim>\<open>Range\<close>; \<^verbatim>\<open>Get\<close> returns the first entry with the key.

  \<^verbatim>\<open>Type()\<close> belongs to the package \<^verbatim>\<open>pcommon\<close>, outside this repository. It answers
  one of eight constants: the constant of the variant the value holds when that is
  a string, bool, int, double, map, slice or bytes, and \<^verbatim>\<open>ValueTypeEmpty\<close> in every
  other case, whether the value holds nothing or a variant that \<^verbatim>\<open>Type()\<close> has no
  case for. \<open>VEmpty\<close> stands for every value of that last kind: a value with an
  unrecognized variant reaches the \<^verbatim>\<open>switch\<close> of \<^verbatim>\<open>writeValueHash\<close> as a value of
  type \<^verbatim>\<open>ValueTypeEmpty\<close>.
\<close>

datatype Value =
    VEmpty
  | VStr gostring
  | VInt "64 word"
  | VDouble "64 word"
  | VBool bool
  | VMap "(gostring \<times> Value) list"
  | VSlice "Value list"
  | VBytes "byte list"



type_synonym Map = "(gostring \<times> Value) list"

definition Get :: "Map \<Rightarrow> gostring \<Rightarrow> Value option" where
  "Get m k = map_of m k"

section \<open>The hash writer\<close>

text \<open>
  The fields of \<^verbatim>\<open>hashWriter\<close>. \<open>hw_h\<close> is the accumulator. \<open>hw_keysBuf\<close> is a Go
  slice of strings: the address of its backing array and its length; its capacity
  is the length of the backing array. The backing arrays are mutated in place and
  shared between the slice in the writer and the slice a \<^verbatim>\<open>range\<close> loop iterates
  over, so they live in an explicit store \<open>hw_arrays\<close>, indexed by address. The
  other buffers are written and consumed before anything else can touch them and
  are kept as plain byte sequences.
\<close>

record hashWriter =
  hw_h :: "byte list"
  hw_strBuf :: "byte list"
  hw_keysBuf :: "nat \<times> nat"
  hw_sumHash :: "byte list"
  hw_numBuf :: "byte list"
  hw_arrays :: "gostring list list"

definition newHashWriter :: hashWriter where
  "newHashWriter =
     \<lparr> hw_h = [], hw_strBuf = [], hw_keysBuf = (0, 0), hw_sumHash = [],
       hw_numBuf = replicate 8 0, hw_arrays = [replicate 16 []] \<rparr>"

definition Write :: "byte list \<Rightarrow> hashWriter \<Rightarrow> hashWriter" where
  "Write p w = w\<lparr>hw_h := hw_h w @ p\<rparr>"

definition Reset :: "hashWriter \<Rightarrow> hashWriter" where
  "Reset w = w\<lparr>hw_h := []\<rparr>"

text \<open>
  \<^verbatim>\<open>hw.keysBuf = append(hw.keysBuf, k)\<close>. With spare capacity the key is stored in
  the backing array in place. Otherwise a new array is allocated, the elements are
  copied and the slice moves to it; the old array stays as it is. The capacity of
  the new array is chosen by the Go runtime: \<open>gc\<close> maps the old capacity to the new
  one, and the new array always has room for the appended element.
\<close>

definition append_key :: "(nat \<Rightarrow> nat) \<Rightarrow> gostring \<Rightarrow> hashWriter \<Rightarrow> hashWriter" where
  "append_key gc k w =
     (let (a, n) = hw_keysBuf w; arr = hw_arrays w ! a in
      if n < length arr
      then w\<lparr>hw_arrays := (hw_arrays w)[a := arr[n := k]], hw_keysBuf := (a, n + 1)\<rparr>
      else w\<lparr>hw_arrays := hw_arrays w @
                   [take n arr @ [k] @ replicate (max (gc (length arr)) (n + 1) - (n + 1)) []],
             hw_keysBuf := (length (hw_arrays w), n + 1)\<rparr>)"

text \<open>\<^verbatim>\<open>m.Range\<close> with the callback of \<^verbatim>\<open>writeMapHash\<close>: one append per entry.\<close>

fun Range_append :: "(nat \<Rightarrow> nat) \<Rightarrow> Map \<Rightarrow> hashWriter \<Rightarrow> hashWriter" where
  "Range_append gc [] w = w"
| "Range_append gc ((k, v) # m) w = Range_append gc m (append_key gc k w)"

text \<open>\<^verbatim>\<open>sort.Strings(hw.keysBuf)\<close> sorts the elements of the slice in place.\<close>

definition sort_Strings :: "hashWriter \<Rightarrow> hashWriter" where
  "sort_Strings w =
     (let (a, n) = hw_keysBuf w; arr = hw_arrays w ! a in
      w\<lparr>hw_arrays := (hw_arrays w)[a := sort (take n arr) @ drop n arr]\<rparr>)"

text \<open>The first three lines of \<^verbatim>\<open>writeMapHash\<close>, up to the loop.\<close>

definition collect_keys :: "(nat \<Rightarrow> nat) \<Rightarrow> Map \<Rightarrow> hashWriter \<Rightarrow> hashWriter" where
  "collect_keys gc m w =
     sort_Strings (Range_append gc m (w\<lparr>hw_keysBuf := (fst (hw_keysBuf w), 0)\<rparr>))"

text \<open>The writes of one loop iteration before the recursive call.\<close>

definition write_key :: "gostring \<Rightarrow> hashWriter \<Rightarrow> hashWriter" where
  "write_key k w =
     (let w1 = w\<lparr>hw_strBuf := []\<rparr>;
          w2 = w1\<lparr>hw_strBuf := hw_strBuf w1 @ keyPrefix\<rparr>;
          w3 = w2\<lparr>hw_strBuf := hw_strBuf w2 @ k\<rparr>
      in Write (hw_strBuf w3) w3)"

definition write_str :: "gostring \<Rightarrow> hashWriter \<Rightarrow> hashWriter" where
  "write_str s w =
     (let w1 = w\<lparr>hw_strBuf := []\<rparr>;
          w2 = w1\<lparr>hw_strBuf := hw_strBuf w1 @ valStrPrefix\<rparr>;
          w3 = w2\<lparr>hw_strBuf := hw_strBuf w2 @ s\<rparr>
      in Write (hw_strBuf w3) w3)"

text \<open>
  \<^verbatim>\<open>binary.LittleEndian.PutUint64(hw.numBuf, x)\<close> panics when the buffer is shorter
  than eight bytes and overwrites its first eight bytes otherwise.
\<close>

definition PutUint64 :: "64 word \<Rightarrow> hashWriter \<Rightarrow> hashWriter option" where
  "PutUint64 x w =
     (if length (hw_numBuf w) < 8 then None
      else Some (w\<lparr>hw_numBuf := le_bytes x @ drop 8 (hw_numBuf w)\<rparr>))"

definition write_num :: "byte list \<Rightarrow> 64 word \<Rightarrow> hashWriter \<Rightarrow> hashWriter option" where
  "write_num prefix x w =
     (case PutUint64 x (Write prefix w) of
        None \<Rightarrow> None
      | Some w1 \<Rightarrow> Some (Write (hw_numBuf w1) w1))"

section \<open>The encoder (\<^verbatim>\<open>writeValueHash\<close>, \<^verbatim>\<open>writeMapHash\<close>, \<^verbatim>\<open>writeSliceHash\<close>)\<close>

text \<open>
  The three methods thread the writer; \<open>None\<close> is a panic. \<open>range_keysBuf\<close> is the
  loop \<^verbatim>\<open>for _, k := range hw.keysBuf\<close> of \<^verbatim>\<open>writeMapHash\<close>: the slice header
  (array \<open>a\<close>, length \<open>n\<close>) is evaluated once when the loop starts, and iteration
  \<open>i\<close> reads element \<open>i\<close> of that array as it is at that moment. A nested call
  of \<^verbatim>\<open>writeMapHash\<close> truncates and refills \<^verbatim>\<open>hw.keysBuf\<close>, which points to the
  same array unless an append has moved it. When \<^verbatim>\<open>m.Get(k)\<close> finds no entry it
  returns a value without data, and \<^verbatim>\<open>Type()\<close> on it dereferences a nil pointer.
\<close>

function writeValueHash :: "(nat \<Rightarrow> nat) \<Rightarrow> Value \<Rightarrow> hashWriter \<Rightarrow> hashWriter option"
  and writeMapHash :: "(nat \<Rightarrow> nat) \<Rightarrow> Map \<Rightarrow> hashWriter \<Rightarrow> hashWriter option"
  and range_keysBuf :: "(nat \<Rightarrow> nat) \<Rightarrow> Map \<Rightarrow> nat \<Rightarrow> nat \<Rightarrow> nat \<Rightarrow> hashWriter
        \<Rightarrow> hashWriter option"
  and writeSliceHash :: "(nat \<Rightarrow> nat) \<Rightarrow> Value list \<Rightarrow> hashWriter \<Rightarrow> hashWriter option"
where
  "writeValueHash gc (VStr s) w = Some (write_str s w)"
| "writeValueHash gc (VBool b) w =
     Some (if b then Write valBoolTrue w else Write valBoolFalse w)"
| "writeValueHash gc (VInt x) w = write_num valIntPrefix x w"
| "writeValueHash gc (VDouble x) w = write_num valDoublePrefix x w"
| "writeValueHash gc (VMap m) w =
     (case writeMapHash gc m (Write valMapPrefix w) of
        None \<Rightarrow> None
      | Some w1 \<Rightarrow> Some (Write valMapSuffix w1))"
| "writeValueHash gc (VSlice sl) w =
     (case writeSliceHash gc sl (Write valSlicePrefix w) of
        None \<Rightarrow> None
      | Some w1 \<Rightarrow> Some (Write valSliceSuffix w1))"
| "writeValueHash gc (VBytes b) w = Some (Write b (Write valBytesPrefix w))"
| "writeValueHash gc VEmpty w = Some (Write valEmpty w)"
| "writeMapHash gc m w =
     (let w1 = collect_keys gc m w
      in range_keysBuf gc m (fst (hw_keysBuf w1)) (snd (hw_keysBuf w1)) 0 w1)"
| "range_keysBuf gc m a n i w =
     (if i < n
      then (case Get m (hw_arrays w ! a ! i) of
              None \<Rightarrow> None
            | Some v \<Rightarrow>
                (case writeValueHash gc v (write_key (hw_arrays w ! a ! i) w) of
                   None \<Rightarrow> None
                 | Some w1 \<Rightarrow> range_keysBuf gc m a n (i + 1) w1))
      else Some w)"
| "writeSliceHash gc [] w = Some w"
| "writeSliceHash gc (v # sl) w =
     (case writeValueHash gc v w of
        None \<Rightarrow> None
      | Some w1 \<Rightarrow> writeSliceHash gc sl w1)"
  by pat_completeness auto

text \<open>
  Every recursive call is on a value nested in the argument (through \<open>Get\<close> or as
  a slice element), and the loop counter runs up to its bound.
\<close>

termination
  by (relation "measures
        [\<lambda>x. case x of
            Inl (Inl (gc, v, w)) \<Rightarrow> 2 * size v + 1
          | Inl (Inr (gc, m, w)) \<Rightarrow> 2 * size (VMap m)
          | Inr (Inl (gc, m, a, n, i, w)) \<Rightarrow> 2 * size (VMap m)
          | Inr (Inr (gc, sl, w)) \<Rightarrow> 2 * size (VSlice sl),
         \<lambda>x. case x of
            Inl (Inl (gc, v, w)) \<Rightarrow> 0
          | Inl (Inr (gc, m, w)) \<Rightarrow> 1
          | Inr (Inl (gc, m, a, n, i, w)) \<Rightarrow> 0
          | Inr (Inr (gc, sl, w)) \<Rightarrow> 0,
         \<lambda>x. case x of
            Inl (Inl (gc, v, w)) \<Rightarrow> 0
          | Inl (Inr (gc, m, w)) \<Rightarrow> 0
          | Inr (Inl (gc, m, a, n, i, w)) \<Rightarrow> n - i
          | Inr (Inr (gc, sl, w)) \<Rightarrow> 0]")
     (auto simp: Get_def less_Suc_eq_le dest!: map_of_SomeD intro!: size_list_estimation')

section \<open>Finishing and the entry points\<close>

text \<open>
  \<^verbatim>\<open>hashSum128\<close>: \<^verbatim>\<open>b := hw.sumHash[:0]\<close>, two calls of \<^verbatim>\<open>Sum\<close> with a \<^verbatim>\<open>Write\<close> of
  the extra byte between them, and \<^verbatim>\<open>copy\<close> into a zeroed 16-byte array.
\<close>

definition hashSum128 :: "hashWriter \<Rightarrow> byte list \<times> hashWriter" where
  "hashSum128 w =
     (let b0 = take 0 (hw_sumHash w);
          b1 = Digest_Sum b0 (hw_h w);
          w1 = Write extraByte w;
          b2 = Digest_Sum b1 (hw_h w1);
          res = take 16 b2 @ replicate (16 - length b2) 0
      in (res, w1))"

text \<open>
  The entry points. \<open>hw\<close> is the writer that \<^verbatim>\<open>hashWriterPool.Get()\<close> returned; the
  result is the digest and the writer that goes back to the pool.
\<close>

definition MapHash :: "(nat \<Rightarrow> nat) \<Rightarrow> hashWriter \<Rightarrow> Map \<Rightarrow> (byte list \<times> hashWriter) option" where
  "MapHash gc hw m =
     (case writeMapHash gc m (Reset hw) of
        None \<Rightarrow> None
      | Some w1 \<Rightarrow> Some (hashSum128 w1))"

definition ValueHash :: "(nat \<Rightarrow> nat) \<Rightarrow> hashWriter \<Rightarrow> Value \<Rightarrow> (byte list \<times> hashWriter) option" where
  "ValueHash gc hw v =
     (case writeValueHash gc v (Reset hw) of
        None \<Rightarrow> None
      | Some w1 \<Rightarrow> Some (hashSum128 w1))"

text \<open>
  A growth policy for the concrete evaluations below: the capacity doubles. The
  general theorems hold for every policy.
\<close>

definition double_cap :: "nat \<Rightarrow> nat" where
  "double_cap c = 2 * c"

text \<open>The digest that \<open>hashSum128\<close> produces for a stream.\<close>

definition digest_of :: "byte list \<Rightarrow> byte list" where
  "digest_of s = be_bytes (Sum64 s) @ be_bytes (Sum64 (s @ extraByte))"

section \<open>The pool invariant and the canonical encoding\<close>

text \<open>
  What holds of every writer in the pool: \<^verbatim>\<open>keysBuf\<close> points to an allocated array
  of capacity at least one, its length is within the capacity, and \<^verbatim>\<open>numBuf\<close> has
  its eight bytes. \<open>newHashWriter\<close> satisfies it and the encoder preserves it.
\<close>

definition pool_inv :: "hashWriter \<Rightarrow> bool" where
  "pool_inv w =
     (fst (hw_keysBuf w) < length (hw_arrays w)
      \<and> snd (hw_keysBuf w) \<le> length (hw_arrays w ! fst (hw_keysBuf w))
      \<and> hw_arrays w ! fst (hw_keysBuf w) \<noteq> []
      \<and> length (hw_numBuf w) = 8)"

text \<open>
  The canonical encoding of section 4.1 of the specification, as a function of the
  value alone: the marker of the type, the payload, and for containers the encoded
  elements between an opening and a closing marker, a map's entries in the order
  of their keys. \<open>map_entries\<close> is the part between the two map markers.
\<close>

fun canonical_encoding :: "Value \<Rightarrow> byte list" where
  "canonical_encoding VEmpty = valEmpty"
| "canonical_encoding (VBool b) = (if b then valBoolTrue else valBoolFalse)"
| "canonical_encoding (VInt x) = valIntPrefix @ le_bytes x"
| "canonical_encoding (VDouble x) = valDoublePrefix @ le_bytes x"
| "canonical_encoding (VStr s) = valStrPrefix @ s"
| "canonical_encoding (VBytes b) = valBytesPrefix @ b"
| "canonical_encoding (VSlice sl) =
     valSlicePrefix @ concat (map canonical_encoding sl) @ valSliceSuffix"
| "canonical_encoding (VMap m) =
     valMapPrefix
     @ concat (map (\<lambda>e. keyPrefix @ fst e @ canonical_encoding (snd e)) (sort_key fst m))
     @ valMapSuffix"

definition map_entries :: "Map \<Rightarrow> byte list" where
  "map_entries m =
     concat (map (\<lambda>e. keyPrefix @ fst e @ canonical_encoding (snd e)) (sort_key fst m))"

text \<open>
  \<open>small_maps v\<close>: every map in \<open>v\<close>, \<open>v\<close> included, has at most one entry.
  \<open>regular v\<close>: the maps of \<open>v\<close> that are not inside another map have unique keys,
  and every map inside a map has at most one entry. For regular values no loop of
  \<^verbatim>\<open>writeMapHash\<close> reads an element of \<^verbatim>\<open>keysBuf\<close> that a nested call has
  overwritten.
\<close>

fun small_maps :: "Value \<Rightarrow> bool" where
  "small_maps (VMap m) = (length m \<le> 1 \<and> list_all (\<lambda>e. small_maps (snd e)) m)"
| "small_maps (VSlice sl) = list_all small_maps sl"
| "small_maps v = True"

fun regular :: "Value \<Rightarrow> bool" where
  "regular (VMap m) = (distinct (map fst m) \<and> list_all (\<lambda>e. small_maps (snd e)) m)"
| "regular (VSlice sl) = list_all regular sl"
| "regular v = True"

text \<open>
  Two relations for the proofs. \<open>keys_ok\<close> is the part of the invariant that
  \<^verbatim>\<open>append\<close> needs. \<open>stays w w'\<close>: from \<open>w\<close> to \<open>w'\<close> the slice \<^verbatim>\<open>keysBuf\<close> has kept
  its array, and no array element other than element 0 of that array has changed.
\<close>

definition keys_ok :: "hashWriter \<Rightarrow> bool" where
  "keys_ok w = (fst (hw_keysBuf w) < length (hw_arrays w)
      \<and> snd (hw_keysBuf w) \<le> length (hw_arrays w ! fst (hw_keysBuf w)))"

definition stays :: "hashWriter \<Rightarrow> hashWriter \<Rightarrow> bool" where
  "stays w w' =
     (pool_inv w' \<and> fst (hw_keysBuf w') = fst (hw_keysBuf w)
      \<and> (\<exists>x. hw_arrays w' =
            (hw_arrays w)[fst (hw_keysBuf w) := (hw_arrays w ! fst (hw_keysBuf w))[0 := x]]))"

text \<open>
  Two relations between the writers of two runs. \<open>agree_from c w1 w2\<close>: the writers
  differ at most in arrays below address \<open>c\<close>, and \<^verbatim>\<open>keysBuf\<close> points at or above
  \<open>c\<close>. \<open>same_shape w1 w2\<close>: the writers differ at most in the arrays at or below
  the one \<^verbatim>\<open>keysBuf\<close> points to, and in that array only below the length of the
  slice.
\<close>

definition agree_from :: "nat \<Rightarrow> hashWriter \<Rightarrow> hashWriter \<Rightarrow> bool" where
  "agree_from c w1 w2 =
     (hw_h w2 = hw_h w1 \<and> hw_strBuf w2 = hw_strBuf w1 \<and> hw_keysBuf w2 = hw_keysBuf w1
      \<and> hw_sumHash w2 = hw_sumHash w1 \<and> hw_numBuf w2 = hw_numBuf w1
      \<and> c \<le> fst (hw_keysBuf w1) \<and> c \<le> length (hw_arrays w1)
      \<and> length (hw_arrays w2) = length (hw_arrays w1)
      \<and> drop c (hw_arrays w2) = drop c (hw_arrays w1))"

definition same_shape :: "hashWriter \<Rightarrow> hashWriter \<Rightarrow> bool" where
  "same_shape w1 w2 =
     (hw_h w2 = hw_h w1 \<and> hw_strBuf w2 = hw_strBuf w1 \<and> hw_keysBuf w2 = hw_keysBuf w1
      \<and> hw_sumHash w2 = hw_sumHash w1 \<and> hw_numBuf w2 = hw_numBuf w1
      \<and> length (hw_arrays w2) = length (hw_arrays w1)
      \<and> keys_ok w1
      \<and> length (hw_arrays w2 ! fst (hw_keysBuf w1)) = length (hw_arrays w1 ! fst (hw_keysBuf w1))
      \<and> drop (snd (hw_keysBuf w1)) (hw_arrays w2 ! fst (hw_keysBuf w1))
          = drop (snd (hw_keysBuf w1)) (hw_arrays w1 ! fst (hw_keysBuf w1))
      \<and> drop (fst (hw_keysBuf w1) + 1) (hw_arrays w2) = drop (fst (hw_keysBuf w1) + 1) (hw_arrays w1))"

text \<open>
  Inputs for the evaluation of the pool. \<open>inner_map\<close> has seventeen one-byte keys
  \<^verbatim>\<open>"b"\<close> to \<^verbatim>\<open>"r"\<close>, inserted in the order b, d, c, e, \<open>\<dots>\<close>, r, each with an empty
  value. \<open>outer_map\<close> is \<^verbatim>\<open>{"a": inner_map, "c": 1, "d": 2}\<close>. \<open>used_writer\<close> is the
  writer that goes back to the pool after \<open>MapHash\<close> of \<open>inner_map\<close> on a new
  writer: its \<^verbatim>\<open>keysBuf\<close> has moved to a second array, of capacity 32.
\<close>

definition inner_map :: Map where
  "inner_map = map (\<lambda>c. ([c], VEmpty))
     [98, 100, 99, 101, 102, 103, 104, 105, 106, 107, 108, 109, 110, 111, 112, 113, 114]"

definition outer_map :: Map where
  "outer_map = [([97], VMap inner_map), ([99], VInt 1), ([100], VInt 2)]"

definition used_writer :: hashWriter where
  "used_writer =
     (case MapHash double_cap newHashWriter inner_map of
        Some (d, w) \<Rightarrow> w
      | None \<Rightarrow> newHashWriter)"

text \<open>
  \<open>outer_map_permuted\<close> has the entries of \<open>outer_map\<close> in the insertion order d, a,
  c. \<open>returned_writer\<close> is the writer that goes back to the pool after \<open>MapHash\<close> of
  \<open>outer_map\<close> on a new writer, the one the next call gets from the pool.
\<close>

definition outer_map_permuted :: Map where
  "outer_map_permuted = [([100], VInt 2), ([97], VMap inner_map), ([99], VInt 1)]"

definition returned_writer :: hashWriter where
  "returned_writer =
     (case MapHash double_cap newHashWriter outer_map of
        Some (d, w) \<Rightarrow> w
      | None \<Rightarrow> newHashWriter)"

text \<open>
  For the injectivity of the encoding. \<open>plain bs\<close>: no byte of \<open>bs\<close> is one of the
  twelve markers 0xF4 to 0xFF. \<open>clean v\<close>: every string, byte sequence and map key
  in \<open>v\<close> is plain. \<open>canon v\<close> is
  \<open>v\<close> with the entries of every map put in the order of their keys: two values
  whose maps have unique keys are equal up to the insertion order of map entries
  exactly when their \<open>canon\<close> is the same. \<open>tail_ok r\<close>: what follows an encoded
  value in the stream is nothing or starts with a marker.
\<close>

definition plain :: "byte list \<Rightarrow> bool" where
  "plain bs = list_all (\<lambda>b. b < 0xF4) bs"

fun clean :: "Value \<Rightarrow> bool" where
  "clean (VStr s) = plain s"
| "clean (VBytes b) = plain b"
| "clean (VMap m) = list_all (\<lambda>e. plain (fst e) \<and> clean (snd e)) m"
| "clean (VSlice sl) = list_all clean sl"
| "clean v = True"

fun canon :: "Value \<Rightarrow> Value" where
  "canon (VMap m) = VMap (map (\<lambda>e. (fst e, canon (snd e))) (sort_key fst m))"
| "canon (VSlice sl) = VSlice (map canon sl)"
| "canon v = v"

definition tail_ok :: "byte list \<Rightarrow> bool" where
  "tail_ok r = (case r of [] \<Rightarrow> True | b # t \<Rightarrow> 0xF4 \<le> b)"

section \<open>The encoder with a bound on the recursion depth\<close>

text \<open>
  \<open>depth v\<close> is the nesting depth of \<open>v\<close>: 0 for a scalar, one more than the deepest
  element for a slice or a map. The functions below are the three methods again,
  with a budget \<open>d\<close> of nested calls of \<^verbatim>\<open>writeValueHash\<close>: every call of
  \<^verbatim>\<open>writeValueHash\<close> uses one, and the outer \<open>None\<close> means that the budget did not
  suffice. The inner option is the result of the method as before.
\<close>

fun depth :: "Value \<Rightarrow> nat" where
  "depth (VMap m) = Suc (foldr max (map (\<lambda>e. depth (snd e)) m) 0)"
| "depth (VSlice sl) = Suc (foldr max (map depth sl) 0)"
| "depth v = 0"

function writeValueHash_within :: "nat \<Rightarrow> (nat \<Rightarrow> nat) \<Rightarrow> Value \<Rightarrow> hashWriter
      \<Rightarrow> hashWriter option option"
  and writeMapHash_within :: "nat \<Rightarrow> (nat \<Rightarrow> nat) \<Rightarrow> Map \<Rightarrow> hashWriter
      \<Rightarrow> hashWriter option option"
  and range_keysBuf_within :: "nat \<Rightarrow> (nat \<Rightarrow> nat) \<Rightarrow> Map \<Rightarrow> nat \<Rightarrow> nat \<Rightarrow> nat
      \<Rightarrow> hashWriter \<Rightarrow> hashWriter option option"
  and writeSliceHash_within :: "nat \<Rightarrow> (nat \<Rightarrow> nat) \<Rightarrow> Value list \<Rightarrow> hashWriter
      \<Rightarrow> hashWriter option option"
where
  "writeValueHash_within 0 gc v w = None"
| "writeValueHash_within (Suc d) gc (VStr s) w = Some (Some (write_str s w))"
| "writeValueHash_within (Suc d) gc (VBool b) w =
     Some (Some (if b then Write valBoolTrue w else Write valBoolFalse w))"
| "writeValueHash_within (Suc d) gc (VInt x) w = Some (write_num valIntPrefix x w)"
| "writeValueHash_within (Suc d) gc (VDouble x) w = Some (write_num valDoublePrefix x w)"
| "writeValueHash_within (Suc d) gc (VMap m) w =
     (case writeMapHash_within d gc m (Write valMapPrefix w) of
        None \<Rightarrow> None
      | Some None \<Rightarrow> Some None
      | Some (Some w1) \<Rightarrow> Some (Some (Write valMapSuffix w1)))"
| "writeValueHash_within (Suc d) gc (VSlice sl) w =
     (case writeSliceHash_within d gc sl (Write valSlicePrefix w) of
        None \<Rightarrow> None
      | Some None \<Rightarrow> Some None
      | Some (Some w1) \<Rightarrow> Some (Some (Write valSliceSuffix w1)))"
| "writeValueHash_within (Suc d) gc (VBytes b) w = Some (Some (Write b (Write valBytesPrefix w)))"
| "writeValueHash_within (Suc d) gc VEmpty w = Some (Some (Write valEmpty w))"
| "writeMapHash_within d gc m w =
     (let w1 = collect_keys gc m w
      in range_keysBuf_within d gc m (fst (hw_keysBuf w1)) (snd (hw_keysBuf w1)) 0 w1)"
| "range_keysBuf_within d gc m a n i w =
     (if i < n
      then (case Get m (hw_arrays w ! a ! i) of
              None \<Rightarrow> Some None
            | Some v \<Rightarrow>
                (case writeValueHash_within d gc v (write_key (hw_arrays w ! a ! i) w) of
                   None \<Rightarrow> None
                 | Some None \<Rightarrow> Some None
                 | Some (Some w1) \<Rightarrow> range_keysBuf_within d gc m a n (i + 1) w1))
      else Some (Some w))"
| "writeSliceHash_within d gc [] w = Some (Some w)"
| "writeSliceHash_within d gc (v # sl) w =
     (case writeValueHash_within d gc v w of
        None \<Rightarrow> None
      | Some None \<Rightarrow> Some None
      | Some (Some w1) \<Rightarrow> writeSliceHash_within d gc sl w1)"
  by pat_completeness auto

termination
  by (relation "measures
        [\<lambda>x. case x of
            Inl (Inl (d, gc, v, w)) \<Rightarrow> d
          | Inl (Inr (d, gc, m, w)) \<Rightarrow> d
          | Inr (Inl (d, gc, m, a, n, i, w)) \<Rightarrow> d
          | Inr (Inr (d, gc, sl, w)) \<Rightarrow> d,
         \<lambda>x. case x of
            Inl (Inl (d, gc, v, w)) \<Rightarrow> 0
          | Inl (Inr (d, gc, m, w)) \<Rightarrow> 2
          | Inr (Inl (d, gc, m, a, n, i, w)) \<Rightarrow> 1
          | Inr (Inr (d, gc, sl, w)) \<Rightarrow> 1,
         \<lambda>x. case x of
            Inl (Inl (d, gc, v, w)) \<Rightarrow> 0
          | Inl (Inr (d, gc, m, w)) \<Rightarrow> 0
          | Inr (Inl (d, gc, m, a, n, i, w)) \<Rightarrow> n - i
          | Inr (Inr (d, gc, sl, w)) \<Rightarrow> length sl]")
     auto

section \<open>NaN bit patterns\<close>

text \<open>
  A \<^verbatim>\<open>Double\<close> is held as the 64 bits that \<^verbatim>\<open>math.Float64bits\<close> returns. Such a
  pattern is a NaN of IEEE 754 when its eleven exponent bits are all set and its
  fraction of 52 bits is not zero; the sign bit is free. \<open>top_byte\<close> is the last byte
  that \<^verbatim>\<open>PutUint64\<close> writes, holding the sign and the seven upper exponent bits.
\<close>

definition is_nan :: "64 word \<Rightarrow> bool" where
  "is_nan x = (take_bit 11 (drop_bit 52 x) = 2047 \<and> take_bit 52 x \<noteq> 0)"

definition top_byte :: "64 word \<Rightarrow> byte" where
  "top_byte x = ucast (drop_bit 56 x)"

text \<open>
  Two quantities of the digest of a stream of nine bytes: the accumulator of XXH64
  after the eight-byte word of the stream, for a start value \<open>k\<close> (the fifth prime plus
  the length of the input), and the bits 27 to 31 of an accumulator.
\<close>

definition after_word :: "64 word \<Rightarrow> 64 word \<Rightarrow> 64 word" where
  "after_word k c = rol 27 (k XOR xxh_round 0 c) * prime1 + prime4"

definition hi5 :: "64 word \<Rightarrow> 5 word" where
  "hi5 a = ucast (drop_bit 27 a)"

section \<open>Basic facts\<close>

lemma length_be_bytes: "length (be_bytes s) = 8"
  by (simp add: be_bytes_def)

lemma length_le_bytes: "length (le_bytes s) = 8"
  by (simp add: le_bytes_def)

lemma hw_h_append_key [simp]: "hw_h (append_key gc k w) = hw_h w"
  by (simp add: append_key_def Let_def split: prod.split)

lemma hw_h_Range_append [simp]: "hw_h (Range_append gc m w) = hw_h w"
  by (induction gc m w rule: Range_append.induct) simp_all

lemma hw_h_sort_Strings [simp]: "hw_h (sort_Strings w) = hw_h w"
  by (simp add: sort_Strings_def Let_def split: prod.split)

lemma hw_h_collect_keys [simp]: "hw_h (collect_keys gc m w) = hw_h w"
  by (simp add: collect_keys_def)

lemma snd_keysBuf_append_key [simp]:
  "snd (hw_keysBuf (append_key gc k w)) = snd (hw_keysBuf w) + 1"
  by (simp add: append_key_def Let_def split: prod.split)

lemma snd_keysBuf_Range_append [simp]:
  "snd (hw_keysBuf (Range_append gc m w)) = snd (hw_keysBuf w) + length m"
  by (induction gc m w rule: Range_append.induct) simp_all

lemma snd_keysBuf_sort_Strings [simp]:
  "snd (hw_keysBuf (sort_Strings w)) = snd (hw_keysBuf w)"
  by (simp add: sort_Strings_def Let_def split: prod.split)

lemma snd_keysBuf_collect_keys [simp]:
  "snd (hw_keysBuf (collect_keys gc m w)) = length m"
  by (simp add: collect_keys_def)

lemma fst_hashSum128: "fst (hashSum128 w) = digest_of (hw_h w)"
  by (simp add: hashSum128_def digest_of_def Digest_Sum_def Write_def Let_def length_be_bytes)

lemma digest_empty_stream: "digest_of [] = [239, 70, 219, 55, 81, 216, 233, 153, 235, 206, 53, 133, 45, 142, 124, 254]"
  by code_simp

lemma digests_empty_distinct:
  "digest_of [] \<noteq> digest_of (valSlicePrefix @ valSliceSuffix)"
  "digest_of (valSlicePrefix @ valSliceSuffix) \<noteq> digest_of valEmpty"
  "digest_of [] \<noteq> digest_of valEmpty"
  by code_simp+

lemma MapHash_fst:
  "map_option fst (MapHash gc hw m) =
     map_option (\<lambda>w. digest_of (hw_h w)) (writeMapHash gc m (Reset hw))"
  by (simp add: MapHash_def fst_hashSum128 split: option.split)

lemma ValueHash_fst:
  "map_option fst (ValueHash gc hw v) =
     map_option (\<lambda>w. digest_of (hw_h w)) (writeValueHash gc v (Reset hw))"
  by (simp add: ValueHash_def fst_hashSum128 split: option.split)

declare range_keysBuf.simps [simp del]

lemma range_keysBuf_done [simp]: "n \<le> i \<Longrightarrow> range_keysBuf gc m a n i w = Some w"
  by (simp add: range_keysBuf.simps)

lemma append_key_cases:
  assumes "keys_ok w"
  obtains (inplace) "snd (hw_keysBuf w) < length (hw_arrays w ! fst (hw_keysBuf w))"
      "append_key gc k w = w\<lparr>hw_arrays := (hw_arrays w)[fst (hw_keysBuf w) :=
          (hw_arrays w ! fst (hw_keysBuf w))[snd (hw_keysBuf w) := k]],
        hw_keysBuf := (fst (hw_keysBuf w), snd (hw_keysBuf w) + 1)\<rparr>"
  | (moved) r where "snd (hw_keysBuf w) = length (hw_arrays w ! fst (hw_keysBuf w))"
      "append_key gc k w = w\<lparr>hw_arrays := hw_arrays w @
          [hw_arrays w ! fst (hw_keysBuf w) @ [k] @ replicate r []],
        hw_keysBuf := (length (hw_arrays w), snd (hw_keysBuf w) + 1)\<rparr>"
      "r = max (gc (snd (hw_keysBuf w))) (snd (hw_keysBuf w) + 1) - (snd (hw_keysBuf w) + 1)"
proof (cases "snd (hw_keysBuf w) < length (hw_arrays w ! fst (hw_keysBuf w))")
  case True
  then show ?thesis
    by (intro inplace) (simp_all add: append_key_def Let_def case_prod_beta)
next
  case False
  with assms have eq: "snd (hw_keysBuf w) = length (hw_arrays w ! fst (hw_keysBuf w))"
    by (simp add: keys_ok_def)
  show ?thesis
    by (rule moved [OF eq _ refl]) (simp add: append_key_def Let_def case_prod_beta eq)
qed

lemma append_key_keys:
  assumes "keys_ok w"
  shows "keys_ok (append_key gc k w)
    \<and> snd (hw_keysBuf (append_key gc k w)) = snd (hw_keysBuf w) + 1
    \<and> take (snd (hw_keysBuf w) + 1)
         (hw_arrays (append_key gc k w) ! fst (hw_keysBuf (append_key gc k w)))
       = take (snd (hw_keysBuf w)) (hw_arrays w ! fst (hw_keysBuf w)) @ [k]
    \<and> fst (hw_keysBuf w) \<le> fst (hw_keysBuf (append_key gc k w))
    \<and> length (hw_arrays w) \<le> length (hw_arrays (append_key gc k w))
    \<and> hw_arrays (append_key gc k w) ! fst (hw_keysBuf (append_key gc k w)) \<noteq> []
    \<and> hw_numBuf (append_key gc k w) = hw_numBuf w"
  using assms
proof (cases rule: append_key_cases [where gc = gc and k = k])
  case inplace
  then show ?thesis using assms
    by (auto simp: keys_ok_def take_Suc_conv_app_nth)
next
  case (moved r)
  then show ?thesis using assms
    by (simp add: keys_ok_def nth_append)
qed

lemma Range_append_keys:
  assumes "keys_ok w"
  shows "keys_ok (Range_append gc m w)
    \<and> snd (hw_keysBuf (Range_append gc m w)) = snd (hw_keysBuf w) + length m
    \<and> take (snd (hw_keysBuf w) + length m)
         (hw_arrays (Range_append gc m w) ! fst (hw_keysBuf (Range_append gc m w)))
       = take (snd (hw_keysBuf w)) (hw_arrays w ! fst (hw_keysBuf w)) @ map fst m
    \<and> fst (hw_keysBuf w) \<le> fst (hw_keysBuf (Range_append gc m w))
    \<and> length (hw_arrays w) \<le> length (hw_arrays (Range_append gc m w))
    \<and> (hw_arrays w ! fst (hw_keysBuf w) \<noteq> []
        \<longrightarrow> hw_arrays (Range_append gc m w) ! fst (hw_keysBuf (Range_append gc m w)) \<noteq> [])
    \<and> hw_numBuf (Range_append gc m w) = hw_numBuf w"
  using assms
proof (induction gc m w rule: Range_append.induct)
  case (1 gc w)
  then show ?case by simp
next
  case (2 gc k v m w)
  note ak = append_key_keys [OF "2.prems", of gc k]
  from ak have ok: "keys_ok (append_key gc k w)" by simp
  note ih = "2.IH" [OF ok]
  show ?case using ak ih by simp
qed

lemma Write_fields [simp]:
  "hw_h (Write p w) = hw_h w @ p"
  "hw_keysBuf (Write p w) = hw_keysBuf w"
  "hw_arrays (Write p w) = hw_arrays w"
  "hw_numBuf (Write p w) = hw_numBuf w"
  by (simp_all add: Write_def)

lemma write_key_fields [simp]:
  "hw_h (write_key k w) = hw_h w @ keyPrefix @ k"
  "hw_keysBuf (write_key k w) = hw_keysBuf w"
  "hw_arrays (write_key k w) = hw_arrays w"
  "hw_numBuf (write_key k w) = hw_numBuf w"
  by (simp_all add: write_key_def Let_def)

lemma write_str_fields [simp]:
  "hw_h (write_str s w) = hw_h w @ valStrPrefix @ s"
  "hw_keysBuf (write_str s w) = hw_keysBuf w"
  "hw_arrays (write_str s w) = hw_arrays w"
  "hw_numBuf (write_str s w) = hw_numBuf w"
  by (simp_all add: write_str_def Let_def)

lemma Reset_fields [simp]:
  "hw_h (Reset w) = []"
  "hw_keysBuf (Reset w) = hw_keysBuf w"
  "hw_arrays (Reset w) = hw_arrays w"
  "hw_numBuf (Reset w) = hw_numBuf w"
  by (simp_all add: Reset_def)

lemma pool_inv_fields:
  "hw_keysBuf w' = hw_keysBuf w \<Longrightarrow> hw_arrays w' = hw_arrays w
   \<Longrightarrow> length (hw_numBuf w') = length (hw_numBuf w) \<Longrightarrow> pool_inv w' = pool_inv w"
  by (simp add: pool_inv_def)

lemma pool_inv_simps [simp]:
  "pool_inv (Write p w) = pool_inv w"
  "pool_inv (write_key k w) = pool_inv w"
  "pool_inv (write_str s w) = pool_inv w"
  "pool_inv (Reset w) = pool_inv w"
  by (rule pool_inv_fields; simp)+

lemma write_num_Some:
  assumes "length (hw_numBuf w) = 8"
  shows "\<exists>w'. write_num p x w = Some w' \<and> hw_h w' = hw_h w @ p @ le_bytes x
     \<and> hw_keysBuf w' = hw_keysBuf w \<and> hw_arrays w' = hw_arrays w
     \<and> length (hw_numBuf w') = 8"
  using assms by (simp add: write_num_def PutUint64_def Write_def length_le_bytes)

lemma stays_refl: "pool_inv w \<Longrightarrow> stays w w"
  unfolding stays_def
  by (auto intro!: exI [of _ "hw_arrays w ! fst (hw_keysBuf w) ! 0"])

lemma stays_fields:
  assumes "pool_inv w" "hw_keysBuf w' = hw_keysBuf w" "hw_arrays w' = hw_arrays w"
    "length (hw_numBuf w') = 8"
  shows "stays w w'"
  using assms unfolding stays_def pool_inv_def
  by (auto intro!: exI [of _ "hw_arrays w ! fst (hw_keysBuf w) ! 0"])

lemma stays_trans: "stays w w' \<Longrightarrow> stays w' w'' \<Longrightarrow> stays w w''"
  unfolding stays_def by (auto simp: pool_inv_def)

lemma stays_pool_inv: "stays w w' \<Longrightarrow> pool_inv w'"
  by (simp add: stays_def)

lemma stays_left:
  assumes "hw_keysBuf w0 = hw_keysBuf w" "hw_arrays w0 = hw_arrays w" "stays w w'"
  shows "stays w0 w'"
  using assms by (simp add: stays_def)

lemma stays_Write_right: "stays w w' \<Longrightarrow> stays w (Write p w')"
  by (simp add: stays_def)

lemma collect_keys_Nil:
  "collect_keys gc [] w = w\<lparr>hw_keysBuf := (fst (hw_keysBuf w), 0)\<rparr>"
  by (simp add: collect_keys_def sort_Strings_def)

lemma take_1_update: "0 < length xs \<Longrightarrow> take (Suc 0) (xs[0 := k]) = [k]"
  by (cases xs) simp_all

lemma collect_keys_single:
  assumes "pool_inv w"
  shows "collect_keys gc [(k, v)] w =
     w\<lparr>hw_keysBuf := (fst (hw_keysBuf w), 1),
       hw_arrays := (hw_arrays w)[fst (hw_keysBuf w) := (hw_arrays w ! fst (hw_keysBuf w))[0 := k]]\<rparr>"
proof -
  have pos: "0 < length (hw_arrays w ! fst (hw_keysBuf w))"
    and a: "fst (hw_keysBuf w) < length (hw_arrays w)"
    using assms by (simp_all add: pool_inv_def)
  have "(hw_arrays w ! fst (hw_keysBuf w))[0 := k]
      = k # drop (Suc 0) ((hw_arrays w ! fst (hw_keysBuf w))[0 := k])"
    using pos by (cases "hw_arrays w ! fst (hw_keysBuf w)") simp_all
  then show ?thesis
    using pos a
    by (simp add: collect_keys_def sort_Strings_def append_key_def Let_def take_1_update)
qed

lemma writeSliceHash_small:
  assumes "\<And>v w. v \<in> set sl \<Longrightarrow> small_maps v \<Longrightarrow> pool_inv w \<Longrightarrow>
      \<exists>w'. writeValueHash gc v w = Some w'
        \<and> hw_h w' = hw_h w @ canonical_encoding v \<and> stays w w'"
    and "list_all small_maps sl" and "pool_inv w"
  shows "\<exists>w'. writeSliceHash gc sl w = Some w'
        \<and> hw_h w' = hw_h w @ concat (map canonical_encoding sl) \<and> stays w w'"
  using assms
proof (induction sl arbitrary: w)
  case Nil
  then show ?case by (simp add: stays_refl)
next
  case (Cons v sl)
  from Cons.prems(1) [of v w] Cons.prems(2,3)
  obtain w1 where w1: "writeValueHash gc v w = Some w1"
      "hw_h w1 = hw_h w @ canonical_encoding v" "stays w w1"
    by auto
  have "\<exists>w'. writeSliceHash gc sl w1 = Some w'
        \<and> hw_h w' = hw_h w1 @ concat (map canonical_encoding sl) \<and> stays w1 w'"
    using Cons.prems w1(3) by (intro Cons.IH) (simp_all add: stays_pool_inv)
  then show ?case using w1 by (auto intro: stays_trans)
qed

lemma writeValueHash_small:
  "small_maps v \<Longrightarrow> pool_inv w \<Longrightarrow>
     \<exists>w'. writeValueHash gc v w = Some w'
       \<and> hw_h w' = hw_h w @ canonical_encoding v \<and> stays w w'"
proof (induction v arbitrary: w)
  case VEmpty
  then show ?case by (simp add: stays_fields pool_inv_def)
next
  case (VStr s)
  then show ?case by (simp add: stays_fields pool_inv_def)
next
  case (VInt x)
  then show ?case
    using write_num_Some [of w valIntPrefix x]
    by (auto simp: pool_inv_def intro!: stays_fields)
next
  case (VDouble x)
  then show ?case
    using write_num_Some [of w valDoublePrefix x]
    by (auto simp: pool_inv_def intro!: stays_fields)
next
  case (VBool b)
  then show ?case by (simp add: stays_fields pool_inv_def)
next
  case (VBytes b)
  then show ?case by (simp add: stays_fields pool_inv_def)
next
  case (VSlice sl)
  have "\<exists>w'. writeSliceHash gc sl (Write valSlicePrefix w) = Some w'
        \<and> hw_h w' = hw_h (Write valSlicePrefix w) @ concat (map canonical_encoding sl)
        \<and> stays (Write valSlicePrefix w) w'"
    using VSlice.prems by (intro writeSliceHash_small VSlice.IH) simp_all
  then obtain w1 where w1: "writeSliceHash gc sl (Write valSlicePrefix w) = Some w1"
      "hw_h w1 = hw_h w @ valSlicePrefix @ concat (map canonical_encoding sl)"
      "stays (Write valSlicePrefix w) w1"
    by auto
  have "stays w w1" by (rule stays_left [OF _ _ w1(3)]) simp_all
  then show ?case using w1 by (simp add: stays_Write_right)
next
  case (VMap m)
  let ?w0 = "Write valMapPrefix w"
  let ?a = "fst (hw_keysBuf w)"
  from VMap.prems have inv0: "pool_inv ?w0" by simp
  have len: "length m \<le> 1" and sm: "list_all (\<lambda>e. small_maps (snd e)) m"
    using VMap.prems by simp_all
  show ?case
  proof (cases m)
    case Nil
    have "stays w (?w0\<lparr>hw_keysBuf := (?a, 0)\<rparr>)"
      using VMap.prems unfolding stays_def pool_inv_def
      by (auto intro!: exI [of _ "hw_arrays w ! ?a ! 0"])
    then show ?thesis using Nil
      by (simp add: collect_keys_Nil stays_Write_right)
  next
    case (Cons e m')
    with len have m: "m = [e]" by simp
    obtain k v where e: "e = (k, v)" by (cases e)
    let ?w1 = "collect_keys gc [(k, v)] ?w0"
    have w1: "?w1 = ?w0\<lparr>hw_keysBuf := (?a, 1),
        hw_arrays := (hw_arrays w)[?a := (hw_arrays w ! ?a)[0 := k]]\<rparr>"
      using collect_keys_single [OF inv0] by simp
    have a: "?a < length (hw_arrays w)" and pos: "0 < length (hw_arrays w ! ?a)"
      using VMap.prems by (simp_all add: pool_inv_def)
    have key: "hw_arrays ?w1 ! ?a ! 0 = k" using a pos by (simp add: w1)
    have inv1: "pool_inv (write_key k ?w1)"
      using VMap.prems a pos by (simp add: w1 pool_inv_def Suc_le_eq)
    have "small_maps v" using sm m e by simp
    from VMap.IH [OF _ _ this inv1, of e] obtain w2 where
      w2: "writeValueHash gc v (write_key k ?w1) = Some w2"
        "hw_h w2 = hw_h (write_key k ?w1) @ canonical_encoding v"
        "stays (write_key k ?w1) w2"
      using m e by auto
    have st: "stays w w2"
      using w2(3) a pos unfolding stays_def by (auto simp: w1)
    have run: "range_keysBuf gc [(k, v)] ?a 1 0 ?w1 = Some w2"
      using key w2(1)
      by (subst range_keysBuf.simps) (simp add: Get_def w1)
    have "writeMapHash gc m ?w0 = Some w2"
      using run by (simp add: m e w1)
    moreover have "hw_h w2 = hw_h w @ valMapPrefix @ keyPrefix @ k @ canonical_encoding v"
      using w2(2) by (simp add: w1)
    ultimately show ?thesis using st by (simp add: m e stays_Write_right)
  qed
qed

lemma collect_keys_sorted:
  assumes "pool_inv w"
  shows "pool_inv (collect_keys gc m w)
    \<and> snd (hw_keysBuf (collect_keys gc m w)) = length m
    \<and> take (length m) (hw_arrays (collect_keys gc m w) ! fst (hw_keysBuf (collect_keys gc m w)))
        = sort (map fst m)"
proof -
  let ?w0 = "w\<lparr>hw_keysBuf := (fst (hw_keysBuf w), 0)\<rparr>"
  let ?w1 = "Range_append gc m ?w0"
  let ?a = "fst (hw_keysBuf ?w1)"
  have ok0: "keys_ok ?w0" using assms by (simp add: keys_ok_def pool_inv_def)
  have ne0: "hw_arrays ?w0 ! fst (hw_keysBuf ?w0) \<noteq> []"
    using assms by (simp add: pool_inv_def)
  note ra = Range_append_keys [OF ok0, of gc m]
  from ra have ok1: "keys_ok ?w1" and n1: "snd (hw_keysBuf ?w1) = length m"
    and tk: "take (length m) (hw_arrays ?w1 ! ?a) = map fst m"
    and ne1: "hw_arrays ?w1 ! ?a \<noteq> []"
    and nb: "hw_numBuf ?w1 = hw_numBuf w"
    using ne0 by simp_all
  have a: "?a < length (hw_arrays ?w1)" and n: "length m \<le> length (hw_arrays ?w1 ! ?a)"
    using ok1 n1 by (simp_all add: keys_ok_def)
  have cw: "collect_keys gc m w = ?w1\<lparr>hw_arrays := (hw_arrays ?w1)[?a :=
      sort (map fst m) @ drop (length m) (hw_arrays ?w1 ! ?a)]\<rparr>"
    using n1 tk by (simp add: collect_keys_def sort_Strings_def case_prod_beta)
  have ne: "sort (map fst m) @ drop (length m) (hw_arrays ?w1 ! ?a) \<noteq> []"
    using ne1 by (cases m) simp_all
  have len: "length (sort (map fst m) @ drop (length m) (hw_arrays ?w1 ! ?a))
      = length (hw_arrays ?w1 ! ?a)"
    using n by simp
  have kb: "hw_keysBuf (collect_keys gc m w) = hw_keysBuf ?w1"
    by (simp add: cw)
  have "pool_inv (collect_keys gc m w)"
    unfolding pool_inv_def kb
    using a n ne nb assms n1 len
    by (simp add: cw pool_inv_def del: length_append length_drop length_sort)
  moreover have "take (length m) (hw_arrays (collect_keys gc m w) ! ?a) = sort (map fst m)"
    using a by (simp add: cw)
  ultimately show ?thesis using n1 by (simp add: kb)
qed

lemma range_keysBuf_small:
  assumes "pool_inv w" "a = fst (hw_keysBuf w)" "n \<le> length ks"
    and "\<And>j. i \<le> j \<Longrightarrow> j < n \<Longrightarrow> hw_arrays w ! a ! j = ks ! j"
    and "\<And>j. j < n \<Longrightarrow> \<exists>v. Get m (ks ! j) = Some v \<and> small_maps v"
  shows "\<exists>w'. range_keysBuf gc m a n i w = Some w'
    \<and> hw_h w' = hw_h w @ concat (map (\<lambda>k. keyPrefix @ k @ canonical_encoding (the (Get m k)))
                              (drop i (take n ks)))
    \<and> pool_inv w'"
  using assms
proof (induction "n - i" arbitrary: i w)
  case 0
  then show ?case by simp
next
  case (Suc d)
  then have i: "i < n" by simp
  let ?k = "ks ! i"
  have rd: "hw_arrays w ! a ! i = ?k" using Suc.prems(4) [of i] i by simp
  from Suc.prems(5) [OF i] obtain v where v: "Get m ?k = Some v" "small_maps v" by auto
  have "pool_inv (write_key ?k w)" using Suc.prems(1) by simp
  from writeValueHash_small [OF v(2) this, of gc] obtain w1 where
    w1: "writeValueHash gc v (write_key ?k w) = Some w1"
      "hw_h w1 = hw_h w @ keyPrefix @ ?k @ canonical_encoding v"
      "stays (write_key ?k w) w1"
    by auto
  from w1(3) obtain x where inv1: "pool_inv w1" and a1: "fst (hw_keysBuf w1) = a"
    and arr1: "hw_arrays w1 = (hw_arrays w)[a := (hw_arrays w ! a)[0 := x]]"
    using Suc.prems(2) by (auto simp: stays_def)
  have alt: "a < length (hw_arrays w)" using Suc.prems(1,2) by (simp add: pool_inv_def)
  have keep: "hw_arrays w1 ! a ! j = ks ! j" if "i + 1 \<le> j" "j < n" for j
    using that Suc.prems(4) [of j] alt by (simp add: arr1)
  have "\<exists>w'. range_keysBuf gc m a n (i + 1) w1 = Some w'
    \<and> hw_h w' = hw_h w1 @ concat (map (\<lambda>k. keyPrefix @ k @ canonical_encoding (the (Get m k)))
                              (drop (i + 1) (take n ks)))
    \<and> pool_inv w'"
    using Suc.hyps(2) inv1 a1 Suc.prems(3,5) keep
    by (intro Suc.hyps(1)) auto
  then obtain w2 where w2: "range_keysBuf gc m a n (i + 1) w1 = Some w2"
    "hw_h w2 = hw_h w1 @ concat (map (\<lambda>k. keyPrefix @ k @ canonical_encoding (the (Get m k)))
                              (drop (i + 1) (take n ks)))"
    "pool_inv w2"
    by auto
  have dr: "drop i (take n ks) = ?k # drop (i + 1) (take n ks)"
    using i Suc.prems(3) by (simp add: Cons_nth_drop_Suc [symmetric])
  have "range_keysBuf gc m a n i w = Some w2"
    using i rd v(1) w1(1) w2(1) by (subst range_keysBuf.simps) simp
  then show ?case using w2 w1(2) v(1) by (simp add: dr)
qed

lemma Get_distinct:
  "distinct (map fst m) \<Longrightarrow> e \<in> set m \<Longrightarrow> Get m (fst e) = Some (snd e)"
  by (simp add: Get_def)

lemma map_fst_sort_key: "map fst (sort_key fst m) = sort (map fst m)"
  by (rule properties_for_sort [symmetric]) simp_all

lemma entries_by_key:
  assumes "distinct (map fst m)"
  shows "concat (map (\<lambda>k. keyPrefix @ k @ canonical_encoding (the (Get m k))) (sort (map fst m)))
    = map_entries m"
proof -
  have "map (\<lambda>k. keyPrefix @ k @ canonical_encoding (the (Get m k))) (map fst (sort_key fst m))
      = map (\<lambda>e. keyPrefix @ fst e @ canonical_encoding (snd e)) (sort_key fst m)"
    using assms by (simp add: Get_distinct)
  then show ?thesis by (simp add: map_entries_def map_fst_sort_key)
qed

lemma writeMapHash_regular:
  assumes "pool_inv w" "distinct (map fst m)" "list_all (\<lambda>e. small_maps (snd e)) m"
  shows "\<exists>w'. writeMapHash gc m w = Some w' \<and> hw_h w' = hw_h w @ map_entries m \<and> pool_inv w'"
proof -
  let ?w0 = "collect_keys gc m w"
  let ?a = "fst (hw_keysBuf ?w0)"
  let ?ks = "sort (map fst m)"
  note ck = collect_keys_sorted [OF assms(1), of gc m]
  have rd: "hw_arrays ?w0 ! ?a ! j = ?ks ! j" if "j < length m" for j
  proof -
    have "take (length m) (hw_arrays ?w0 ! ?a) ! j = ?ks ! j" using ck by simp
    then show ?thesis using that by simp
  qed
  have sm: "\<exists>v. Get m (?ks ! j) = Some v \<and> small_maps v" if "j < length m" for j
  proof -
    have "?ks ! j \<in> set ?ks" using that by (intro nth_mem) simp
    then obtain e where e: "e \<in> set m" "?ks ! j = fst e" by auto
    then show ?thesis using assms(2,3) by (auto simp: Get_distinct list_all_iff)
  qed
  have "\<exists>w'. range_keysBuf gc m ?a (length m) 0 ?w0 = Some w'
    \<and> hw_h w' = hw_h ?w0 @ concat (map (\<lambda>k. keyPrefix @ k @ canonical_encoding (the (Get m k)))
                              (drop 0 (take (length m) ?ks)))
    \<and> pool_inv w'"
    using ck rd sm by (intro range_keysBuf_small) simp_all
  then show ?thesis
    using ck entries_by_key [OF assms(2)] by (simp add: Let_def)
qed

lemma writeSliceHash_regular:
  assumes "\<And>v w. v \<in> set sl \<Longrightarrow> regular v \<Longrightarrow> pool_inv w \<Longrightarrow>
      \<exists>w'. writeValueHash gc v w = Some w'
        \<and> hw_h w' = hw_h w @ canonical_encoding v \<and> pool_inv w'"
    and "list_all regular sl" and "pool_inv w"
  shows "\<exists>w'. writeSliceHash gc sl w = Some w'
        \<and> hw_h w' = hw_h w @ concat (map canonical_encoding sl) \<and> pool_inv w'"
  using assms
proof (induction sl arbitrary: w)
  case Nil
  then show ?case by simp
next
  case (Cons v sl)
  from Cons.prems(1) [of v w] Cons.prems(2,3)
  obtain w1 where w1: "writeValueHash gc v w = Some w1"
      "hw_h w1 = hw_h w @ canonical_encoding v" "pool_inv w1"
    by auto
  have "\<exists>w'. writeSliceHash gc sl w1 = Some w'
        \<and> hw_h w' = hw_h w1 @ concat (map canonical_encoding sl) \<and> pool_inv w'"
    using Cons.prems w1(3) by (intro Cons.IH) simp_all
  then show ?case using w1 by auto
qed

lemma writeValueHash_regular:
  "regular v \<Longrightarrow> pool_inv w \<Longrightarrow>
     \<exists>w'. writeValueHash gc v w = Some w'
       \<and> hw_h w' = hw_h w @ canonical_encoding v \<and> pool_inv w'"
proof (induction v arbitrary: w)
  case (VInt x)
  then show ?case
    using write_num_Some [of w valIntPrefix x]
    by (auto simp: pool_inv_def)
next
  case (VDouble x)
  then show ?case
    using write_num_Some [of w valDoublePrefix x]
    by (auto simp: pool_inv_def)
next
  case (VSlice sl)
  have "\<exists>w'. writeSliceHash gc sl (Write valSlicePrefix w) = Some w'
        \<and> hw_h w' = hw_h (Write valSlicePrefix w) @ concat (map canonical_encoding sl)
        \<and> pool_inv w'"
    using VSlice.prems by (intro writeSliceHash_regular VSlice.IH) simp_all
  then show ?case by auto
next
  case (VMap m)
  have "\<exists>w'. writeMapHash gc m (Write valMapPrefix w) = Some w'
      \<and> hw_h w' = hw_h (Write valMapPrefix w) @ map_entries m \<and> pool_inv w'"
    using VMap.prems by (intro writeMapHash_regular) simp_all
  then show ?case by (auto simp: map_entries_def)
qed simp_all

lemma pool_inv_newHashWriter: "pool_inv newHashWriter"
  by (simp add: pool_inv_def newHashWriter_def)

lemma agree_from_nth:
  assumes "agree_from c w1 w2" "c \<le> b"
  shows "hw_arrays w2 ! b = hw_arrays w1 ! b"
proof -
  have c: "c \<le> length (hw_arrays w1)" "c \<le> length (hw_arrays w2)"
    and d: "drop c (hw_arrays w2) = drop c (hw_arrays w1)"
    using assms by (simp_all add: agree_from_def)
  have "hw_arrays w2 ! (c + (b - c)) = hw_arrays w1 ! (c + (b - c))"
    using nth_drop [OF c(1), of "b - c"] nth_drop [OF c(2), of "b - c"] d by simp
  then show ?thesis using assms(2) by simp
qed

lemma agree_from_key:
  "agree_from c w1 w2 \<Longrightarrow> hw_arrays w2 ! fst (hw_keysBuf w1) = hw_arrays w1 ! fst (hw_keysBuf w1)"
  by (rule agree_from_nth [where c = c]) (simp_all add: agree_from_def)

lemma agree_from_Write: "agree_from c w1 w2 \<Longrightarrow> agree_from c (Write p w1) (Write p w2)"
  by (simp add: agree_from_def Write_def)

lemma agree_from_write_key:
  "agree_from c w1 w2 \<Longrightarrow> agree_from c (write_key k w1) (write_key k w2)"
  by (simp add: agree_from_def write_key_def Write_def Let_def)

lemma agree_from_write_str:
  "agree_from c w1 w2 \<Longrightarrow> agree_from c (write_str s w1) (write_str s w2)"
  by (simp add: agree_from_def write_str_def Write_def Let_def)

lemma agree_from_write_num:
  "agree_from c w1 w2 \<Longrightarrow> rel_option (agree_from c) (write_num p x w1) (write_num p x w2)"
  by (simp add: agree_from_def write_num_def PutUint64_def Write_def)

lemma agree_from_append_key:
  assumes "agree_from c w1 w2"
  shows "agree_from c (append_key gc k w1) (append_key gc k w2)"
proof -
  have arr: "hw_arrays w2 ! fst (hw_keysBuf w1) = hw_arrays w1 ! fst (hw_keysBuf w1)"
    using assms by (rule agree_from_key)
  show ?thesis
    using assms arr
    by (simp add: agree_from_def append_key_def Let_def case_prod_beta drop_update_swap)
qed

lemma agree_from_Range_append:
  "agree_from c w1 w2 \<Longrightarrow> agree_from c (Range_append gc m w1) (Range_append gc m w2)"
  by (induction gc m w1 arbitrary: w2 rule: Range_append.induct)
     (simp_all add: agree_from_append_key)

lemma agree_from_sort_Strings:
  assumes "agree_from c w1 w2"
  shows "agree_from c (sort_Strings w1) (sort_Strings w2)"
proof -
  have arr: "hw_arrays w2 ! fst (hw_keysBuf w1) = hw_arrays w1 ! fst (hw_keysBuf w1)"
    using assms by (rule agree_from_key)
  show ?thesis
    using assms arr
    by (simp add: agree_from_def sort_Strings_def Let_def case_prod_beta drop_update_swap)
qed

lemma agree_from_collect_keys:
  assumes "agree_from c w1 w2"
  shows "agree_from c (collect_keys gc m w1) (collect_keys gc m w2)"
proof -
  have "agree_from c (w1\<lparr>hw_keysBuf := (fst (hw_keysBuf w1), 0)\<rparr>)
          (w2\<lparr>hw_keysBuf := (fst (hw_keysBuf w2), 0)\<rparr>)"
    using assms by (simp add: agree_from_def)
  then show ?thesis
    unfolding collect_keys_def
    by (intro agree_from_sort_Strings agree_from_Range_append)
qed

lemma writeValueHash_agree:
  "agree_from c w1 w2 \<Longrightarrow>
     rel_option (agree_from c) (writeValueHash gc v w1) (writeValueHash gc v w2)"
  and writeMapHash_agree:
  "agree_from c w1 w2 \<Longrightarrow>
     rel_option (agree_from c) (writeMapHash gc m w1) (writeMapHash gc m w2)"
  and range_keysBuf_agree:
  "agree_from c w1 w2 \<Longrightarrow> c \<le> a \<Longrightarrow>
     rel_option (agree_from c) (range_keysBuf gc m a n i w1) (range_keysBuf gc m a n i w2)"
  and writeSliceHash_agree:
  "agree_from c w1 w2 \<Longrightarrow>
     rel_option (agree_from c) (writeSliceHash gc sl w1) (writeSliceHash gc sl w2)"
proof (induction gc v w1 and gc m w1 and gc m a n i w1 and gc sl w1
    arbitrary: w2 and w2 and w2 and w2
    rule: writeValueHash_writeMapHash_range_keysBuf_writeSliceHash.induct)
  case (1 gc s w)
  then show ?case by (simp add: agree_from_write_str)
next
  case (2 gc b w)
  then show ?case by (simp add: agree_from_Write)
next
  case (3 gc x w)
  then show ?case by (simp add: agree_from_write_num)
next
  case (4 gc x w)
  then show ?case by (simp add: agree_from_write_num)
next
  case (5 gc m w)
  from 5(2) have "agree_from c (Write valMapPrefix w) (Write valMapPrefix w2)"
    by (rule agree_from_Write)
  from 5(1) [OF this] show ?case
    by (auto simp: option.rel_sel agree_from_Write split: option.splits)
next
  case (6 gc sl w)
  from 6(2) have "agree_from c (Write valSlicePrefix w) (Write valSlicePrefix w2)"
    by (rule agree_from_Write)
  from 6(1) [OF this] show ?case
    by (auto simp: option.rel_sel agree_from_Write split: option.splits)
next
  case (7 gc b w)
  then show ?case by (simp add: agree_from_Write)
next
  case (8 gc w)
  then show ?case by (simp add: agree_from_Write)
next
  case (9 gc m w)
  from 9(2) have ag: "agree_from c (collect_keys gc m w) (collect_keys gc m w2)"
    by (rule agree_from_collect_keys)
  then have kb: "hw_keysBuf (collect_keys gc m w2) = hw_keysBuf (collect_keys gc m w)"
    and le: "c \<le> fst (hw_keysBuf (collect_keys gc m w))"
    by (simp_all add: agree_from_def)
  from 9(1) [OF refl ag le] show ?case
    by (simp add: Let_def kb)
next
  case (10 gc m a n i w)
  show ?case
  proof (cases "i < n")
    case False
    then show ?thesis using 10(3) by simp
  next
    case True
    have rd: "hw_arrays w2 ! a ! i = hw_arrays w ! a ! i"
      using agree_from_nth [OF 10(3) 10(4)] by simp
    show ?thesis
    proof (cases "Get m (hw_arrays w ! a ! i)")
      case None
      then show ?thesis using True rd
        by (simp add: range_keysBuf.simps [of gc m a n i])
    next
      case (Some v)
      let ?k = "hw_arrays w ! a ! i"
      have "agree_from c (write_key ?k w) (write_key ?k w2)"
        using 10(3) by (rule agree_from_write_key)
      from 10(1) [OF True Some this]
      have r1: "rel_option (agree_from c) (writeValueHash gc v (write_key ?k w))
          (writeValueHash gc v (write_key ?k w2))" .
      show ?thesis
      proof (cases "writeValueHash gc v (write_key ?k w)")
        case None
        then show ?thesis using r1 True rd Some
          by (simp add: range_keysBuf.simps [of gc m a n i] option.rel_sel split: option.splits)
      next
        case (Some w1')
        with r1 obtain w2' where w2': "writeValueHash gc v (write_key ?k w2) = Some w2'"
          "agree_from c w1' w2'"
          by (auto simp: option_rel_Some1)
        from 10(2) [OF True \<open>Get m ?k = Some v\<close> Some w2'(2) 10(4)]
        show ?thesis using True rd \<open>Get m ?k = Some v\<close> Some w2'(1)
          by (simp add: range_keysBuf.simps [of gc m a n i])
      qed
    qed
  qed
next
  case (11 gc w)
  then show ?case by simp
next
  case (12 gc v sl w)
  from 12(1) [OF 12(3)]
  have r1: "rel_option (agree_from c) (writeValueHash gc v w) (writeValueHash gc v w2)" .
  show ?case
  proof (cases "writeValueHash gc v w")
    case None
    then show ?thesis using r1 by (simp add: option.rel_sel split: option.splits)
  next
    case (Some w1')
    with r1 obtain w2' where w2': "writeValueHash gc v w2 = Some w2'" "agree_from c w1' w2'"
      by (auto simp: option_rel_Some1)
    from 12(2) [OF Some w2'(2)] show ?thesis using Some w2'(1) by simp
  qed
qed

lemma drop_Suc_eq: "drop n xs = drop n ys \<Longrightarrow> drop (Suc n) xs = drop (Suc n) ys"
  by (metis drop_drop plus_1_eq_Suc)

lemma same_shape_append_key:
  assumes "same_shape w1 w2"
  shows "same_shape (append_key gc k1 w1) (append_key gc k2 w2)"
proof -
  obtain a n where kb: "hw_keysBuf w1 = (a, n)" by (cases "hw_keysBuf w1")
  have kb2: "hw_keysBuf w2 = (a, n)" using assms kb by (simp add: same_shape_def)
  have a: "a < length (hw_arrays w1)" "a < length (hw_arrays w2)"
    and n: "n \<le> length (hw_arrays w1 ! a)"
    and len: "length (hw_arrays w2 ! a) = length (hw_arrays w1 ! a)"
    and dn: "drop n (hw_arrays w2 ! a) = drop n (hw_arrays w1 ! a)"
    and da: "drop (Suc a) (hw_arrays w2) = drop (Suc a) (hw_arrays w1)"
    and la: "length (hw_arrays w2) = length (hw_arrays w1)"
    using assms kb by (simp_all add: same_shape_def keys_ok_def)
  show ?thesis
  proof (cases "n < length (hw_arrays w1 ! a)")
    case True
    then show ?thesis
      using assms kb kb2 a len da drop_Suc_eq [OF dn]
      by (simp add: same_shape_def append_key_def keys_ok_def Let_def)
  next
    case False
    then show ?thesis
      using assms kb kb2 a len n la
      by (simp add: same_shape_def append_key_def keys_ok_def nth_append Let_def)
  qed
qed

lemma same_shape_Range_append:
  "length m1 = length m2 \<Longrightarrow> same_shape w1 w2 \<Longrightarrow>
     same_shape (Range_append gc m1 w1) (Range_append gc m2 w2)"
proof (induction m1 m2 arbitrary: w1 w2 rule: list_induct2)
  case Nil
  then show ?case by simp
next
  case (Cons e1 m1 e2 m2)
  obtain k1 v1 k2 v2 where e: "e1 = (k1, v1)" "e2 = (k2, v2)"
    by (cases e1, cases e2) auto
  show ?case
    using Cons.IH [OF same_shape_append_key [OF Cons.prems, of gc k1 k2]]
    by (simp add: e)
qed

lemma collect_keys_perm:
  assumes "pool_inv w" "mset (map fst m') = mset (map fst m)"
  shows "agree_from (fst (hw_keysBuf (collect_keys gc m w)))
           (collect_keys gc m w) (collect_keys gc m' w)"
proof -
  let ?w0 = "w\<lparr>hw_keysBuf := (fst (hw_keysBuf w), 0)\<rparr>"
  let ?w1 = "Range_append gc m ?w0"
  let ?w2 = "Range_append gc m' ?w0"
  have ok0: "keys_ok ?w0" using assms(1) by (simp add: keys_ok_def pool_inv_def)
  have len: "length m = length m'"
    using assms(2) by (metis length_map size_mset)
  have "same_shape ?w0 ?w0" using ok0 by (simp add: same_shape_def)
  from same_shape_Range_append [OF len this, of gc]
  have ss: "same_shape ?w1 ?w2" .
  obtain a where kb1: "hw_keysBuf ?w1 = (a, length m)"
    using Range_append_keys [OF ok0, of gc m] by (cases "hw_keysBuf ?w1") simp
  have kb2: "hw_keysBuf ?w2 = (a, length m)" using ss kb1 by (simp add: same_shape_def)
  have t1: "take (length m) (hw_arrays ?w1 ! a) = map fst m"
    using Range_append_keys [OF ok0, of gc m] kb1 by simp
  have t2: "take (length m) (hw_arrays ?w2 ! a) = map fst m'"
    using Range_append_keys [OF ok0, of gc m'] kb2 len by simp
  have srt: "sort (map fst m') = sort (map fst m)"
    using assms(2) by (metis properties_for_sort sorted_sort mset_sort)
  have a: "a < length (hw_arrays ?w1)" and la: "length (hw_arrays ?w2) = length (hw_arrays ?w1)"
    and dn: "drop (length m) (hw_arrays ?w2 ! a) = drop (length m) (hw_arrays ?w1 ! a)"
    and da: "drop (Suc a) (hw_arrays ?w2) = drop (Suc a) (hw_arrays ?w1)"
    using ss kb1 by (simp_all add: same_shape_def keys_ok_def)
  have c1: "collect_keys gc m w = ?w1\<lparr>hw_arrays := (hw_arrays ?w1)[a :=
      sort (map fst m) @ drop (length m) (hw_arrays ?w1 ! a)]\<rparr>"
    using kb1 t1 by (simp add: collect_keys_def sort_Strings_def)
  have c2: "collect_keys gc m' w = ?w2\<lparr>hw_arrays := (hw_arrays ?w2)[a :=
      sort (map fst m) @ drop (length m) (hw_arrays ?w1 ! a)]\<rparr>"
    using kb2 t2 len srt dn by (simp add: collect_keys_def sort_Strings_def)
  have "drop a ((hw_arrays ?w2)[a := x]) = drop a ((hw_arrays ?w1)[a := x])" for x
    using a la da by (simp add: drop_update_swap Cons_nth_drop_Suc [symmetric] del: drop_Suc_Cons)
  then show ?thesis
    using ss kb1 kb2 a la
    by (simp add: c1 c2 agree_from_def same_shape_def)
qed

lemma range_keysBuf_Get_cong:
  assumes "\<And>k. Get m' k = Get m k"
  shows "range_keysBuf gc m' a n i w = range_keysBuf gc m a n i w"
proof (induction "n - i" arbitrary: i w)
  case 0
  then show ?case by simp
next
  case (Suc d)
  then have i: "i < n" and d: "d = n - (i + 1)" by simp_all
  show ?case
    using i Suc.hyps(1) [OF d] assms
    by (simp add: range_keysBuf.simps [of gc _ a n i] split: option.splits)
qed

lemma Get_perm:
  assumes "distinct (map fst m)" "mset m' = mset m"
  shows "Get m' k = Get m k"
proof -
  have "mset (map fst m') = mset (map fst m)" using assms(2) by (metis mset_map)
  then have "distinct (map fst m')" using assms(1) by (metis mset_eq_imp_distinct_iff)
  moreover have "set m' = set m" using assms(2) by (rule mset_eq_setD)
  ultimately have "map_of m' = map_of m" using assms(1) by (simp add: map_of_inject_set)
  then show ?thesis by (simp add: Get_def)
qed

lemma map_entries_perm:
  assumes "distinct (map fst m)" "mset m' = mset m"
  shows "map_entries m' = map_entries m"
proof -
  have "inj_on fst (set m')"
    using assms by (metis distinct_map mset_eq_imp_distinct_iff mset_map)
  then have "sort_key fst m' = sort_key fst m"
    using assms(2) by (intro sort_key_eq_sort_key) simp_all
  then show ?thesis by (simp add: map_entries_def)
qed

lemma MapHash_regular:
  assumes "pool_inv hw" and "distinct (map fst m)"
    and "list_all (\<lambda>e. small_maps (snd e)) m"
  shows "map_option fst (MapHash gc hw m) = Some (digest_of (map_entries m))"
proof -
  have "\<exists>w'. writeMapHash gc m (Reset hw) = Some w'
      \<and> hw_h w' = hw_h (Reset hw) @ map_entries m \<and> pool_inv w'"
    using assms by (intro writeMapHash_regular) simp_all
  then show ?thesis by (auto simp: MapHash_fst)
qed

lemma used_writer_eq:
  "used_writer =
    \<lparr>hw_h =
      [244, 98, 245, 244, 99, 245, 244, 100, 245, 244, 101, 245, 244, 102,
       245, 244, 103, 245, 244, 104, 245, 244, 105, 245, 244, 106, 245, 244,
       107, 245, 244, 108, 245, 244, 109, 245, 244, 110, 245, 244, 111, 245,
       244, 112, 245, 244, 113, 245, 244, 114, 245, 243],
      hw_strBuf = [244, 114], hw_keysBuf = (1, 17), hw_sumHash = [],
      hw_numBuf = [0, 0, 0, 0, 0, 0, 0, 0],
      hw_arrays =
        [[[98], [100], [99], [101], [102], [103], [104], [105], [106], [107],
          [108], [109], [110], [111], [112], [113]],
         [[98], [99], [100], [101], [102], [103], [104], [105], [106], [107],
          [108], [109], [110], [111], [112], [113], [114], [], [], [], [], [],
          [], [], [], [], [], [], [], [], [], []]]\<rparr>"
  by code_simp

lemma outer_map_fresh_stream:
  "map_option hw_h (writeMapHash double_cap outer_map (Reset newHashWriter)) = Some
    [244, 97, 252, 244, 98, 245, 244, 99, 245, 244, 100, 245, 244, 101, 245,
     244, 102, 245, 244, 103, 245, 244, 104, 245, 244, 105, 245, 244, 106,
     245, 244, 107, 245, 244, 108, 245, 244, 109, 245, 244, 110, 245, 244,
     111, 245, 244, 112, 245, 244, 113, 245, 244, 114, 245, 253, 244, 100,
     250, 2, 0, 0, 0, 0, 0, 0, 0, 244, 99, 250, 1, 0, 0, 0, 0, 0, 0, 0]"
  by code_simp

lemma outer_map_used_stream:
  "map_option hw_h (writeMapHash double_cap outer_map (Reset used_writer)) = Some
    [244, 97, 252, 244, 98, 245, 244, 99, 245, 244, 100, 245, 244, 101, 245,
     244, 102, 245, 244, 103, 245, 244, 104, 245, 244, 105, 245, 244, 106,
     245, 244, 107, 245, 244, 108, 245, 244, 109, 245, 244, 110, 245, 244,
     111, 245, 244, 112, 245, 244, 113, 245, 244, 114, 245, 253, 244, 99, 250,
     1, 0, 0, 0, 0, 0, 0, 0, 244, 100, 250, 2, 0, 0, 0, 0, 0, 0, 0]"
  unfolding used_writer_eq by code_simp

lemma outer_map_sums:
  "be_bytes (Sum64
    [244, 97, 252, 244, 98, 245, 244, 99, 245, 244, 100, 245, 244, 101, 245,
     244, 102, 245, 244, 103, 245, 244, 104, 245, 244, 105, 245, 244, 106,
     245, 244, 107, 245, 244, 108, 245, 244, 109, 245, 244, 110, 245, 244,
     111, 245, 244, 112, 245, 244, 113, 245, 244, 114, 245, 253, 244, 100,
     250, 2, 0, 0, 0, 0, 0, 0, 0, 244, 99, 250, 1, 0, 0, 0, 0, 0, 0, 0])
   = [36, 26, 15, 225, 233, 169, 248, 220]
   \<and> be_bytes (Sum64
    [244, 97, 252, 244, 98, 245, 244, 99, 245, 244, 100, 245, 244, 101, 245,
     244, 102, 245, 244, 103, 245, 244, 104, 245, 244, 105, 245, 244, 106,
     245, 244, 107, 245, 244, 108, 245, 244, 109, 245, 244, 110, 245, 244,
     111, 245, 244, 112, 245, 244, 113, 245, 244, 114, 245, 253, 244, 99, 250,
     1, 0, 0, 0, 0, 0, 0, 0, 244, 100, 250, 2, 0, 0, 0, 0, 0, 0, 0])
   = [125, 90, 86, 243, 64, 227, 137, 140]"
  by code_simp

lemma plain_split:
  "plain s \<Longrightarrow> plain s' \<Longrightarrow> tail_ok r \<Longrightarrow> tail_ok r' \<Longrightarrow> s @ r = s' @ r'
     \<Longrightarrow> s = s' \<and> r = r'"
proof (induction s arbitrary: s')
  case Nil
  then show ?case
    by (cases s') (auto simp: plain_def tail_ok_def)
next
  case (Cons b s)
  show ?case
  proof (cases s')
    case Nil
    then show ?thesis using Cons.prems by (auto simp: plain_def tail_ok_def)
  next
    case (Cons b' t')
    then show ?thesis using Cons.prems Cons.IH [of t'] by (auto simp: plain_def)
  qed
qed

lemma le_bytes_inj:
  assumes "le_bytes x = le_bytes y"
  shows "x = y"
proof (rule bit_eqI)
  fix n
  assume "possible_bit TYPE(64 word) n"
  then have n: "n < 64" by (simp add: possible_bit_word)
  have e: "(ucast (drop_bit (8 * i) x) :: byte) = ucast (drop_bit (8 * i) y)" if "i < 8" for i
  proof -
    have "i \<in> {0, 1, 2, 3, 4, 5, 6, 7}" using that by auto
    then show ?thesis using assms by (auto simp: le_bytes_def)
  qed
  have "bit (ucast (drop_bit (8 * (n div 8)) x) :: byte) (n mod 8)
      = bit (ucast (drop_bit (8 * (n div 8)) y) :: byte) (n mod 8)"
    using e [of "n div 8"] n by simp
  then show "bit x n = bit y n"
    by (simp add: bit_simps)
qed

lemma encoding_head:
  "clean v \<Longrightarrow> \<exists>b t. canonical_encoding v = b # t \<and> 0xF5 \<le> b \<and> b \<noteq> 0xFD \<and> b \<noteq> 0xFF"
  by (cases v) (auto simp: marker_defs)

lemma tail_ok_Cons [simp]: "tail_ok (b # t) = (0xF4 \<le> b)" and tail_ok_Nil [simp]: "tail_ok []"
  by (simp_all add: tail_ok_def)

lemma tail_ok_encoding: "clean v \<Longrightarrow> tail_ok (canonical_encoding v @ r)"
proof -
  assume "clean v"
  from encoding_head [OF this] obtain b t where
    "canonical_encoding v = b # t" "0xF5 \<le> b" by auto
  then show ?thesis by (auto simp: tail_ok_def intro: order_trans [of "0xF4" "0xF5"])
qed

lemma slice_inj:
  assumes "\<And>v v' r r'. v \<in> set sl \<Longrightarrow> clean v \<Longrightarrow> clean v' \<Longrightarrow> tail_ok r \<Longrightarrow> tail_ok r'
        \<Longrightarrow> canonical_encoding v @ r = canonical_encoding v' @ r'
        \<Longrightarrow> canon v = canon v' \<and> r = r'"
    and "list_all clean sl" and "list_all clean sl'"
    and "concat (map canonical_encoding sl) @ 0xFF # r
       = concat (map canonical_encoding sl') @ 0xFF # r'"
  shows "map canon sl = map canon sl' \<and> r = r'"
  using assms
proof (induction sl arbitrary: sl')
  case Nil
  show ?case
  proof (cases sl')
    case Nil
    then show ?thesis using Nil.prems by simp
  next
    case (Cons v' t')
    then have "clean v'" using Nil.prems(3) by simp
    from encoding_head [OF this] obtain b u where
      bu: "canonical_encoding v' = b # u" "b \<noteq> 0xFF" by blast
    have "0xFF # r = b # (u @ concat (map canonical_encoding t') @ 0xFF # r')"
      using Nil.prems(4) Cons by (simp add: bu(1))
    then have "b = 0xFF" by simp
    then show ?thesis using bu(2) by simp
  qed
next
  case (Cons v t)
  have cv: "clean v" and ct: "list_all clean t" using Cons.prems(2) by simp_all
  show ?case
  proof (cases sl')
    case Nil
    from encoding_head [OF cv] obtain b u where
      bu: "canonical_encoding v = b # u" "b \<noteq> 0xFF" by blast
    have "b # (u @ concat (map canonical_encoding t) @ 0xFF # r) = 0xFF # r'"
      using Cons.prems(4) Nil by (simp add: bu(1))
    then have "b = 0xFF" by simp
    then show ?thesis using bu(2) by simp
  next
    case (Cons v' t')
    have cv': "clean v'" and ct': "list_all clean t'" using Cons.prems(3) Cons by simp_all
    let ?r = "concat (map canonical_encoding t) @ 0xFF # r"
    let ?r' = "concat (map canonical_encoding t') @ 0xFF # r'"
    have ok: "tail_ok ?r"
    proof (cases t)
      case Nil
      then show ?thesis by simp
    next
      case (Cons x xs)
      then have "clean x" using ct by simp
      from tail_ok_encoding [OF this] show ?thesis using Cons by simp
    qed
    have ok': "tail_ok ?r'"
    proof (cases t')
      case Nil
      then show ?thesis by simp
    next
      case (Cons x xs)
      then have "clean x" using ct' by simp
      from tail_ok_encoding [OF this] show ?thesis using Cons by simp
    qed
    have eq: "canonical_encoding v @ ?r = canonical_encoding v' @ ?r'"
      using Cons.prems(4) Cons by simp
    have "canon v = canon v' \<and> ?r = ?r'"
      by (rule Cons.prems(1) [OF _ cv cv' ok ok' eq]) simp
    then have hd: "canon v = canon v'" and tl: "?r = ?r'" by blast+
    have "map canon t = map canon t' \<and> r = r'"
    proof (rule Cons.IH [OF _ ct ct' tl])
      fix x x' q q'
      assume "x \<in> set t" "clean x" "clean x'" "tail_ok q" "tail_ok q'"
        "canonical_encoding x @ q = canonical_encoding x' @ q'"
      then show "canon x = canon x' \<and> q = q'"
        by (intro Cons.prems(1)) simp_all
    qed
    then show ?thesis using hd Cons by simp
  qed
qed

lemma entries_inj:
  assumes "\<And>e v' r r'. e \<in> set es \<Longrightarrow> clean (snd e) \<Longrightarrow> clean v' \<Longrightarrow> tail_ok r
        \<Longrightarrow> tail_ok r'
        \<Longrightarrow> canonical_encoding (snd e) @ r = canonical_encoding v' @ r'
        \<Longrightarrow> canon (snd e) = canon v' \<and> r = r'"
    and "list_all (\<lambda>e. plain (fst e) \<and> clean (snd e)) es"
    and "list_all (\<lambda>e. plain (fst e) \<and> clean (snd e)) es'"
    and "concat (map (\<lambda>e. 0xF4 # fst e @ canonical_encoding (snd e)) es) @ 0xFD # r
       = concat (map (\<lambda>e. 0xF4 # fst e @ canonical_encoding (snd e)) es') @ 0xFD # r'"
  shows "map (\<lambda>e. (fst e, canon (snd e))) es = map (\<lambda>e. (fst e, canon (snd e))) es'
     \<and> r = r'"
  using assms
proof (induction es arbitrary: es')
  case Nil
  show ?case
  proof (cases es')
    case Nil
    then show ?thesis using Nil.prems(4) by simp
  next
    case (Cons e' t')
    then show ?thesis using Nil.prems(4) by simp
  qed
next
  case (Cons e t)
  have pe: "plain (fst e)" and ce: "clean (snd e)"
    and ct: "list_all (\<lambda>e. plain (fst e) \<and> clean (snd e)) t"
    using Cons.prems(2) by simp_all
  show ?case
  proof (cases es')
    case Nil
    then show ?thesis using Cons.prems(4) by simp
  next
    case (Cons e' t')
    have pe': "plain (fst e')" and ce': "clean (snd e')"
      and ct': "list_all (\<lambda>e. plain (fst e) \<and> clean (snd e)) t'"
      using Cons.prems(3) Cons by simp_all
    let ?r = "concat (map (\<lambda>e. 0xF4 # fst e @ canonical_encoding (snd e)) t) @ 0xFD # r"
    let ?r' = "concat (map (\<lambda>e. 0xF4 # fst e @ canonical_encoding (snd e)) t') @ 0xFD # r'"
    have ok: "tail_ok ?r" by (cases t) simp_all
    have ok': "tail_ok ?r'" by (cases t') simp_all
    have eq: "fst e @ (canonical_encoding (snd e) @ ?r)
        = fst e' @ (canonical_encoding (snd e') @ ?r')"
      using Cons.prems(4) Cons by simp
    from plain_split [OF pe pe' tail_ok_encoding [OF ce] tail_ok_encoding [OF ce'] eq]
    have k: "fst e = fst e'"
      and eq2: "canonical_encoding (snd e) @ ?r = canonical_encoding (snd e') @ ?r'"
      by simp_all
    have "canon (snd e) = canon (snd e') \<and> ?r = ?r'"
      by (rule Cons.prems(1) [OF _ ce ce' ok ok' eq2]) simp
    then have v: "canon (snd e) = canon (snd e')" and tl: "?r = ?r'" by blast+
    have "map (\<lambda>e. (fst e, canon (snd e))) t = map (\<lambda>e. (fst e, canon (snd e))) t' \<and> r = r'"
    proof (rule Cons.IH [OF _ ct ct' tl])
      fix x x' q q'
      assume "x \<in> set t" "clean (snd x)" "clean x'" "tail_ok q" "tail_ok q'"
        "canonical_encoding (snd x) @ q = canonical_encoding x' @ q'"
      then show "canon (snd x) = canon x' \<and> q = q'"
        by (intro Cons.prems(1)) simp_all
    qed
    then show ?thesis using k v Cons by simp
  qed
qed

lemma le_bytes_split:
  assumes "le_bytes x @ r = le_bytes y @ r'"
  shows "x = y \<and> r = r'"
proof -
  have "le_bytes x = le_bytes y \<and> r = r'"
    using assms by (simp add: length_le_bytes)
  then show ?thesis using le_bytes_inj by blast
qed

lemma encoding_inj:
  "clean v \<Longrightarrow> clean v' \<Longrightarrow> tail_ok r \<Longrightarrow> tail_ok r'
   \<Longrightarrow> canonical_encoding v @ r = canonical_encoding v' @ r'
   \<Longrightarrow> canon v = canon v' \<and> r = r'"
proof (induction v arbitrary: v' r r')
  case VEmpty
  then show ?case by (cases v') (simp_all add: marker_defs split: if_splits)
next
  case (VStr s)
  show ?case
  proof (cases v')
    case (VStr s')
    then have "s @ r = s' @ r'" using VStr.prems(5) by (simp add: marker_defs)
    from plain_split [OF _ _ VStr.prems(3,4) this] VStr.prems(1,2) VStr
    show ?thesis by simp
  qed (use VStr.prems in \<open>simp_all add: marker_defs split: if_splits\<close>)
next
  case (VInt x)
  show ?case
  proof (cases v')
    case (VInt x')
    then have "le_bytes x @ r = le_bytes x' @ r'" using VInt.prems(5) by (simp add: marker_defs)
    from le_bytes_split [OF this] VInt show ?thesis by simp
  qed (use VInt.prems in \<open>simp_all add: marker_defs split: if_splits\<close>)
next
  case (VDouble x)
  show ?case
  proof (cases v')
    case (VDouble x')
    then have "le_bytes x @ r = le_bytes x' @ r'"
      using VDouble.prems(5) by (simp add: marker_defs)
    from le_bytes_split [OF this] VDouble show ?thesis by simp
  qed (use VDouble.prems in \<open>simp_all add: marker_defs split: if_splits\<close>)
next
  case (VBool b)
  then show ?case by (cases v') (simp_all add: marker_defs split: if_splits)
next
  case (VBytes s)
  show ?case
  proof (cases v')
    case (VBytes s')
    then have "s @ r = s' @ r'" using VBytes.prems(5) by (simp add: marker_defs)
    from plain_split [OF _ _ VBytes.prems(3,4) this] VBytes.prems(1,2) VBytes
    show ?thesis by simp
  qed (use VBytes.prems in \<open>simp_all add: marker_defs split: if_splits\<close>)
next
  case (VSlice sl)
  show ?case
  proof (cases v')
    case (VSlice sl')
    have eq: "concat (map canonical_encoding sl) @ 0xFF # r
        = concat (map canonical_encoding sl') @ 0xFF # r'"
      using VSlice.prems(5) VSlice by (simp add: marker_defs)
    have "map canon sl = map canon sl' \<and> r = r'"
    proof (rule slice_inj [OF _ _ _ eq])
      show "list_all clean sl" using VSlice.prems(1) by simp
      show "list_all clean sl'" using VSlice.prems(2) VSlice by simp
    next
      fix x x' q q'
      assume "x \<in> set sl" "clean x" "clean x'" "tail_ok q" "tail_ok q'"
        "canonical_encoding x @ q = canonical_encoding x' @ q'"
      then show "canon x = canon x' \<and> q = q'" by (rule VSlice.IH)
    qed
    then show ?thesis using VSlice by simp
  qed (use VSlice.prems in \<open>simp_all add: marker_defs split: if_splits\<close>)
next
  case (VMap m)
  show ?case
  proof (cases v')
    case (VMap m')
    let ?es = "sort_key fst m" and ?es' = "sort_key fst m'"
    have eq: "concat (map (\<lambda>e. 0xF4 # fst e @ canonical_encoding (snd e)) ?es) @ 0xFD # r
        = concat (map (\<lambda>e. 0xF4 # fst e @ canonical_encoding (snd e)) ?es') @ 0xFD # r'"
      using VMap.prems(5) VMap by (simp add: marker_defs)
    have "map (\<lambda>e. (fst e, canon (snd e))) ?es = map (\<lambda>e. (fst e, canon (snd e))) ?es'
       \<and> r = r'"
    proof (rule entries_inj [OF _ _ _ eq])
      show "list_all (\<lambda>e. plain (fst e) \<and> clean (snd e)) ?es"
        using VMap.prems(1) by (simp add: list_all_iff)
      show "list_all (\<lambda>e. plain (fst e) \<and> clean (snd e)) ?es'"
        using VMap.prems(2) VMap by (simp add: list_all_iff)
    next
      fix e x' q q'
      assume e: "e \<in> set ?es" and rest: "clean (snd e)" "clean x'" "tail_ok q" "tail_ok q'"
        "canonical_encoding (snd e) @ q = canonical_encoding x' @ q'"
      have "e \<in> set m" using e by simp
      moreover have "snd e \<in> Basic_BNFs.snds e" by (cases e) simp
      ultimately show "canon (snd e) = canon x' \<and> q = q'"
        using rest by (intro VMap.IH)
    qed
    then show ?thesis using VMap by simp
  qed (use VMap.prems in \<open>simp_all add: marker_defs split: if_splits\<close>)
qed

declare range_keysBuf_within.simps [simp del]

lemma foldr_max_ge: "x \<in> set xs \<Longrightarrow> x \<le> foldr max xs (0::nat)"
  by (induction xs) (auto simp: max_def)

lemma depth_Get: "Get m k = Some v \<Longrightarrow> depth v < depth (VMap m)"
proof -
  assume "Get m k = Some v"
  then have "(k, v) \<in> set m" by (simp add: Get_def map_of_SomeD)
  then have "depth v \<in> set (map (\<lambda>e. depth (snd e)) m)" by force
  from foldr_max_ge [OF this] show ?thesis by simp
qed

lemma depth_slice: "v \<in> set sl \<Longrightarrow> depth v < depth (VSlice sl)"
proof -
  assume "v \<in> set sl"
  then have "depth v \<in> set (map depth sl)" by simp
  from foldr_max_ge [OF this] show ?thesis by simp
qed

lemma within_depth:
  "depth v < d \<Longrightarrow> writeValueHash_within d gc v w = Some (writeValueHash gc v w)"
  "depth (VMap m) \<le> d \<Longrightarrow> writeMapHash_within d gc m w = Some (writeMapHash gc m w)"
  "depth (VMap m) \<le> d \<Longrightarrow>
     range_keysBuf_within d gc m a n i w = Some (range_keysBuf gc m a n i w)"
  "depth (VSlice sl) \<le> d \<Longrightarrow> writeSliceHash_within d gc sl w = Some (writeSliceHash gc sl w)"
proof (induction gc v w and gc m w and gc m a n i w and gc sl w
    arbitrary: d and d and d and d
    rule: writeValueHash_writeMapHash_range_keysBuf_writeSliceHash.induct)
  case (1 gc s w)
  then show ?case by (cases d) simp_all
next
  case (2 gc b w)
  then show ?case by (cases d) simp_all
next
  case (3 gc x w)
  then show ?case by (cases d) simp_all
next
  case (4 gc x w)
  then show ?case by (cases d) simp_all
next
  case (5 gc m w)
  then obtain d' where d: "d = Suc d'" by (cases d) simp_all
  then have "depth (VMap m) \<le> d'" using 5(2) by simp
  from 5(1) [OF this] show ?case
    by (simp add: d split: option.split del: writeMapHash.simps writeMapHash_within.simps)
next
  case (6 gc sl w)
  then obtain d' where d: "d = Suc d'" by (cases d) simp_all
  then have "depth (VSlice sl) \<le> d'" using 6(2) by simp
  from 6(1) [OF this] show ?case
    by (simp add: d split: option.split)
next
  case (7 gc b w)
  then show ?case by (cases d) simp_all
next
  case (8 gc w)
  then show ?case by (cases d) simp_all
next
  case (9 gc m w)
  from 9(1) [OF refl 9(2)] show ?case by (simp add: Let_def)
next
  case (10 gc m a n i w)
  show ?case
  proof (cases "i < n")
    case False
    then show ?thesis
      by (simp add: range_keysBuf_within.simps [of d gc m a n i])
  next
    case True
    show ?thesis
    proof (cases "Get m (hw_arrays w ! a ! i)")
      case None
      then show ?thesis using True
        by (simp add: range_keysBuf_within.simps [of d gc m a n i]
            range_keysBuf.simps [of gc m a n i])
    next
      case (Some v)
      from depth_Get [OF Some] 10(3) have dv: "depth v < d" by simp
      note v = 10(1) [OF True Some dv]
      show ?thesis
      proof (cases "writeValueHash gc v (write_key (hw_arrays w ! a ! i) w)")
        case None
        then show ?thesis using True Some v
          by (simp add: range_keysBuf_within.simps [of d gc m a n i]
              range_keysBuf.simps [of gc m a n i])
      next
        case (Some w1)
        from 10(2) [OF True \<open>Get m (hw_arrays w ! a ! i) = Some v\<close> Some 10(3)]
        show ?thesis using True \<open>Get m (hw_arrays w ! a ! i) = Some v\<close> v Some
          by (simp add: range_keysBuf_within.simps [of d gc m a n i]
              range_keysBuf.simps [of gc m a n i])
      qed
    qed
  qed
next
  case (11 gc w)
  then show ?case by simp
next
  case (12 gc v sl w)
  have dv: "depth v < d" using depth_slice [of v "v # sl"] 12(3) by simp
  have ds: "depth (VSlice sl) \<le> d" using 12(3) by simp
  note v = 12(1) [OF dv]
  show ?case
  proof (cases "writeValueHash gc v w")
    case None
    then show ?thesis using v by simp
  next
    case (Some w1)
    from 12(2) [OF Some ds] show ?thesis using v Some by simp
  qed
qed

lemma returned_writer_alt:
  "returned_writer =
     (case writeMapHash double_cap outer_map (Reset newHashWriter) of
        Some w \<Rightarrow> Write extraByte w
      | None \<Rightarrow> newHashWriter)"
  by (simp add: returned_writer_def MapHash_def hashSum128_def Let_def
      split: option.split del: writeMapHash.simps)

lemma outer_map_permuted_returned_stream:
  "map_option hw_h (writeMapHash double_cap outer_map_permuted (Reset returned_writer)) = Some
    [244, 97, 252, 244, 98, 245, 244, 99, 245, 244, 100, 245, 244, 101, 245,
     244, 102, 245, 244, 103, 245, 244, 104, 245, 244, 105, 245, 244, 106,
     245, 244, 107, 245, 244, 108, 245, 244, 109, 245, 244, 110, 245, 244,
     111, 245, 244, 112, 245, 244, 113, 245, 244, 114, 245, 253, 244, 99, 250,
     1, 0, 0, 0, 0, 0, 0, 0, 244, 100, 250, 2, 0, 0, 0, 0, 0, 0, 0]"
  unfolding returned_writer_alt by code_simp

lemma outer_map_permuted_perm:
  "mset outer_map_permuted = mset outer_map \<and> distinct (map fst outer_map)"
  by (simp add: outer_map_permuted_def outer_map_def)

section \<open>The marker bytes\<close>

text \<open>
  C9. The twelve marker bytes of the encoder (empty, bytes prefix, string prefix,
  bool true, bool false, int prefix, double prefix, map open, map close, slice
  open, slice close, key prefix) are pairwise distinct, each is a single byte, and
  none of them is below 0xF0.
\<close>

theorem markers_distinct_in_range:
  "distinct [valEmpty, valBytesPrefix, valStrPrefix, valBoolTrue, valBoolFalse, valIntPrefix,
      valDoublePrefix, valMapPrefix, valMapSuffix, valSlicePrefix, valSliceSuffix, keyPrefix]
   \<and> map length [valEmpty, valBytesPrefix, valStrPrefix, valBoolTrue, valBoolFalse,
      valIntPrefix, valDoublePrefix, valMapPrefix, valMapSuffix, valSlicePrefix,
      valSliceSuffix, keyPrefix] = [1, 1, 1, 1, 1, 1, 1, 1, 1, 1, 1, 1]
   \<and> filter (\<lambda>b. b < 0xF0) (valEmpty @ valBytesPrefix @ valStrPrefix @ valBoolTrue @
      valBoolFalse @ valIntPrefix @ valDoublePrefix @ valMapPrefix @ valMapSuffix @
      valSlicePrefix @ valSliceSuffix @ keyPrefix) = []"
  by (simp add: marker_defs)

section \<open>Finishing\<close>

text \<open>
  C5. For every state of the accumulator, \<open>hashSum128\<close> returns 16 bytes: the first
  eight are the sum of the bytes written so far, the last eight are the sum of the
  same accumulator after one more byte, the fixed extension byte 0xF3, has been
  written to it. The accumulator is not reset in between: it ends holding the old
  bytes followed by that one byte.
\<close>

theorem hashSum128_two_finalizations:
  "hashSum128 w =
     (be_bytes (Sum64 (hw_h w)) @ be_bytes (Sum64 (hw_h w @ [0xF3])),
      w\<lparr>hw_h := hw_h w @ [0xF3]\<rparr>)
   \<and> length (fst (hashSum128 w)) = 16
   \<and> take 8 (fst (hashSum128 w)) = Digest_Sum [] (hw_h w)
   \<and> drop 8 (fst (hashSum128 w)) = Digest_Sum [] (hw_h (Write extraByte w))
   \<and> hw_h (Write extraByte w) = hw_h w @ [0xF3]
   \<and> extraByte = [0xF3] \<and> length extraByte = 1"
  by (simp add: hashSum128_def Digest_Sum_def Write_def Let_def length_be_bytes extraByte_def)

section \<open>Empty map, empty slice and empty value\<close>

text \<open>
  C8. From any pooled writer and under any growth policy, \<open>MapHash\<close> of the empty
  map, \<open>ValueHash\<close> of the empty slice and \<open>ValueHash\<close> of the empty value return
  the digests of the empty stream, of the two slice markers and of the empty
  marker, and these three digests are pairwise distinct.
\<close>

theorem empty_map_empty_slice_empty_value_distinct:
  "map_option fst (MapHash gc hw []) = Some (digest_of [])
   \<and> map_option fst (ValueHash gc hw (VSlice [])) = Some (digest_of (valSlicePrefix @ valSliceSuffix))
   \<and> map_option fst (ValueHash gc hw VEmpty) = Some (digest_of valEmpty)
   \<and> digest_of [] \<noteq> digest_of (valSlicePrefix @ valSliceSuffix)
   \<and> digest_of (valSlicePrefix @ valSliceSuffix) \<noteq> digest_of valEmpty
   \<and> digest_of [] \<noteq> digest_of valEmpty"
proof -
  have "map_option fst (MapHash gc hw []) = Some (digest_of [])"
    by (simp add: MapHash_fst Reset_def)
  moreover have "map_option fst (ValueHash gc hw (VSlice [])) =
      Some (digest_of (valSlicePrefix @ valSliceSuffix))"
    by (simp add: ValueHash_fst Reset_def Write_def)
  moreover have "map_option fst (ValueHash gc hw VEmpty) = Some (digest_of valEmpty)"
    by (simp add: ValueHash_fst Reset_def Write_def)
  moreover note digests_empty_distinct
  ultimately show ?thesis by blast
qed

section \<open>The stream of \<open>MapHash\<close>\<close>

text \<open>
  C3 as stated fails: \<open>MapHash\<close> calls \<^verbatim>\<open>writeMapHash\<close> directly, and the two map
  markers are written only by the map case of \<^verbatim>\<open>writeValueHash\<close>. For the map with
  the single entry \<^verbatim>\<open>"a"\<close> \<open>\<mapsto>\<close> Empty the stream is F4 61 F5: it neither begins with
  the map-open marker nor ends with the map-close marker.
\<close>

theorem MapHash_stream_counterexample:
  "map_option hw_h (writeMapHash double_cap [([97], VEmpty)] (Reset newHashWriter))
     = Some [0xf4, 97, 0xf5]
   \<and> hd [0xf4, 97, 0xf5] \<noteq> hd valMapPrefix
   \<and> last [0xf4, 97, 0xf5 :: byte] \<noteq> last valMapSuffix"
  by code_simp

text \<open>
  C3, amended. For every pooled writer and every map with unique keys whose values
  contain no map with two or more entries, the stream that \<open>MapHash\<close> digests is
  exactly the entries in byte-wise sorted key order, each as the key marker, the
  key bytes and the canonical encoding of the value, with no marker before or after
  them; the digest returned is the digest of that stream.
\<close>

theorem MapHash_stream:
  assumes "pool_inv hw" and "distinct (map fst m)"
    and "list_all (\<lambda>e. small_maps (snd e)) m"
  shows "(\<exists>w'. writeMapHash gc m (Reset hw) = Some w' \<and> hw_h w' = map_entries m)
    \<and> map_option fst (MapHash gc hw m) = Some (digest_of (map_entries m))"
proof -
  have "\<exists>w'. writeMapHash gc m (Reset hw) = Some w'
      \<and> hw_h w' = hw_h (Reset hw) @ map_entries m \<and> pool_inv w'"
    using assms by (intro writeMapHash_regular) simp_all
  then show ?thesis by (auto simp: MapHash_fst)
qed

theorem MapHash_stream_witness:
  "map_option fst (MapHash double_cap newHashWriter [([98], VInt 2), ([97], VStr [120])])
     = Some (digest_of (keyPrefix @ [97] @ valStrPrefix @ [120]
                        @ keyPrefix @ [98] @ valIntPrefix @ le_bytes 2))"
  using MapHash_stream [of newHashWriter "[([98], VInt 2), ([97], VStr [120])]" double_cap]
  by (simp add: pool_inv_newHashWriter map_entries_def)

section \<open>Values with an unrecognized variant\<close>



section \<open>Order independence\<close>

text \<open>
  Started from one and the same writer, \<open>MapHash\<close> gives the same result for a map
  with unique keys and for any permutation of its entries (for both a digest, or
  for both a panic). When no value of the map contains a map with two or more
  entries, the digest is returned and is the same from any two pooled writers.
\<close>

lemma MapHash_same_writer_order_independent:
  assumes "pool_inv hw" and "distinct (map fst m)" and "mset m' = mset m"
  shows "map_option fst (MapHash gc hw m') = map_option fst (MapHash gc hw m)
    \<and> (list_all (\<lambda>e. small_maps (snd e)) m \<and> pool_inv hw'
        \<longrightarrow> map_option fst (MapHash gc hw' m') = map_option fst (MapHash gc hw m)
          \<and> map_option fst (MapHash gc hw m) \<noteq> None)"
proof -
  let ?w = "collect_keys gc m (Reset hw)"
  let ?w' = "collect_keys gc m' (Reset hw)"
  let ?a = "fst (hw_keysBuf ?w)"
  have keys: "mset (map fst m') = mset (map fst m)" using assms(3) by (metis mset_map)
  have inv: "pool_inv (Reset hw)" using assms(1) by simp
  have ag: "agree_from ?a ?w ?w'" using inv keys by (rule collect_keys_perm)
  then have kb: "hw_keysBuf ?w' = hw_keysBuf ?w" by (simp add: agree_from_def)
  have len: "length m' = length m" using assms(3) by (metis size_mset)
  have "rel_option (agree_from ?a) (range_keysBuf gc m ?a (length m) 0 ?w)
      (range_keysBuf gc m ?a (length m) 0 ?w')"
    using ag by (rule range_keysBuf_agree) simp
  moreover have "range_keysBuf gc m' ?a (length m) 0 ?w' = range_keysBuf gc m ?a (length m) 0 ?w'"
    using Get_perm [OF assms(2,3)] by (rule range_keysBuf_Get_cong)
  ultimately have "rel_option (agree_from ?a) (writeMapHash gc m (Reset hw))
      (writeMapHash gc m' (Reset hw))"
    by (simp add: Let_def kb len)
  then have "map_option hw_h (writeMapHash gc m' (Reset hw))
      = map_option hw_h (writeMapHash gc m (Reset hw))"
    by (cases "writeMapHash gc m (Reset hw)"; cases "writeMapHash gc m' (Reset hw)")
       (simp_all add: agree_from_def)
  then have one: "map_option fst (MapHash gc hw m') = map_option fst (MapHash gc hw m)"
    unfolding MapHash_fst
    by (cases "writeMapHash gc m (Reset hw)"; cases "writeMapHash gc m' (Reset hw)") simp_all
  have two: "map_option fst (MapHash gc hw' m') = map_option fst (MapHash gc hw m)
      \<and> map_option fst (MapHash gc hw m) \<noteq> None"
    if sm: "list_all (\<lambda>e. small_maps (snd e)) m" and inv': "pool_inv hw'"
  proof -
    have d': "distinct (map fst m')" using keys assms(2) by (metis mset_eq_imp_distinct_iff)
    have sm': "list_all (\<lambda>e. small_maps (snd e)) m'"
      using sm mset_eq_setD [OF assms(3)] by (simp add: list_all_iff)
    show ?thesis
      using MapHash_regular [OF assms(1,2) sm, of gc] MapHash_regular [OF inv' d' sm', of gc]
        map_entries_perm [OF assms(2,3)]
      by auto
  qed
  show ?thesis using one two by blast
qed

lemma MapHash_same_writer_order_independent_example:
  "map_option fst (MapHash double_cap newHashWriter [([97], VStr [120]), ([98], VInt 2)])
     = map_option fst (MapHash double_cap newHashWriter [([98], VInt 2), ([97], VStr [120])])"
  using MapHash_same_writer_order_independent [of newHashWriter "[([98], VInt 2), ([97], VStr [120])]"
      "[([97], VStr [120]), ([98], VInt 2)]" double_cap newHashWriter]
  by (simp add: pool_inv_newHashWriter)

text \<open>
  C1 does not hold of the code. The writer comes from the pool, and the digest of
  a map with a nested map depends on the capacity its \<^verbatim>\<open>keysBuf\<close> has reached (the
  defect of C6). On a new pool, \<open>MapHash\<close> of \<open>outer_map\<close> feeds the entries in the
  order a, d, c and leaves a writer of capacity 32 in the pool; \<open>MapHash\<close> of
  \<open>outer_map_permuted\<close>, the same entries inserted in another order, then gets that
  writer and feeds them in the order a, c, d. The two digests differ.
\<close>

theorem order_independence_fails_through_pool:
  "mset outer_map_permuted = mset outer_map
   \<and> distinct (map fst outer_map)
   \<and> map_option (take 8 \<circ> fst) (MapHash double_cap newHashWriter outer_map)
       = Some [36, 26, 15, 225, 233, 169, 248, 220]
   \<and> map_option (take 8 \<circ> fst) (MapHash double_cap returned_writer outer_map_permuted)
       = Some [125, 90, 86, 243, 64, 227, 137, 140]
   \<and> map_option fst (MapHash double_cap returned_writer outer_map_permuted)
       \<noteq> map_option fst (MapHash double_cap newHashWriter outer_map)"
proof -
  obtain w1 where w1: "writeMapHash double_cap outer_map (Reset newHashWriter) = Some w1"
    and h1: "hw_h w1 = [244, 97, 252, 244, 98, 245, 244, 99, 245, 244, 100, 245, 244, 101, 245,
     244, 102, 245, 244, 103, 245, 244, 104, 245, 244, 105, 245, 244, 106,
     245, 244, 107, 245, 244, 108, 245, 244, 109, 245, 244, 110, 245, 244,
     111, 245, 244, 112, 245, 244, 113, 245, 244, 114, 245, 253, 244, 100,
     250, 2, 0, 0, 0, 0, 0, 0, 0, 244, 99, 250, 1, 0, 0, 0, 0, 0, 0, 0]"
    using outer_map_fresh_stream by auto
  obtain w2 where
    w2: "writeMapHash double_cap outer_map_permuted (Reset returned_writer) = Some w2"
    and h2: "hw_h w2 = [244, 97, 252, 244, 98, 245, 244, 99, 245, 244, 100, 245, 244, 101, 245,
     244, 102, 245, 244, 103, 245, 244, 104, 245, 244, 105, 245, 244, 106,
     245, 244, 107, 245, 244, 108, 245, 244, 109, 245, 244, 110, 245, 244,
     111, 245, 244, 112, 245, 244, 113, 245, 244, 114, 245, 253, 244, 99, 250,
     1, 0, 0, 0, 0, 0, 0, 0, 244, 100, 250, 2, 0, 0, 0, 0, 0, 0, 0]"
    using outer_map_permuted_returned_stream by auto
  have g1: "map_option fst (MapHash double_cap newHashWriter outer_map)
      = Some (digest_of (hw_h w1))"
    unfolding MapHash_fst w1 by simp
  have g2: "map_option fst (MapHash double_cap returned_writer outer_map_permuted)
      = Some (digest_of (hw_h w2))"
    unfolding MapHash_fst w2 by simp
  have t1: "take 8 (digest_of (hw_h w1)) = [36, 26, 15, 225, 233, 169, 248, 220]"
    using outer_map_sums by (simp add: digest_of_def h1 length_be_bytes)
  have t2: "take 8 (digest_of (hw_h w2)) = [125, 90, 86, 243, 64, 227, 137, 140]"
    using outer_map_sums by (simp add: digest_of_def h2 length_be_bytes)
  have f1: "map_option (take 8 \<circ> fst) (MapHash double_cap newHashWriter outer_map)
       = Some [36, 26, 15, 225, 233, 169, 248, 220]"
    using g1 t1 by auto
  have f2: "map_option (take 8 \<circ> fst) (MapHash double_cap returned_writer outer_map_permuted)
       = Some [125, 90, 86, 243, 64, 227, 137, 140]"
    using g2 t2 by auto
  have "map_option fst (MapHash double_cap returned_writer outer_map_permuted)
       \<noteq> map_option fst (MapHash double_cap newHashWriter outer_map)"
  proof
    assume "map_option fst (MapHash double_cap returned_writer outer_map_permuted)
       = map_option fst (MapHash double_cap newHashWriter outer_map)"
    then show False using g1 g2 t1 t2 by auto
  qed
  then show ?thesis using outer_map_permuted_perm f1 f2 by simp
qed

section \<open>The pool\<close>

text \<open>
  C6 does not hold of the code. \<^verbatim>\<open>writeMapHash\<close> reuses \<^verbatim>\<open>hw.keysBuf\<close> in nested
  calls while the \<^verbatim>\<open>range\<close> loop of the outer call is still reading the same
  backing array, and what the outer loop then reads depends on the capacity the
  pooled writer has reached. For \<open>outer_map\<close> a new writer (capacity 16) feeds the
  entries in the order a, d, c; the writer \<open>used_writer\<close>, which satisfies the pool
  invariant, feeds them in the order a, c, d. The two digests differ.
\<close>

theorem pooled_writer_changes_digest:
  "pool_inv used_writer
   \<and> map_option (take 8 \<circ> fst) (MapHash double_cap newHashWriter outer_map)
       = Some [36, 26, 15, 225, 233, 169, 248, 220]
   \<and> map_option (take 8 \<circ> fst) (MapHash double_cap used_writer outer_map)
       = Some [125, 90, 86, 243, 64, 227, 137, 140]
   \<and> map_option fst (MapHash double_cap used_writer outer_map)
       \<noteq> map_option fst (MapHash double_cap newHashWriter outer_map)"
proof -
  have inv: "pool_inv used_writer"
    unfolding used_writer_eq by (simp add: pool_inv_def)
  obtain w1 where w1: "writeMapHash double_cap outer_map (Reset newHashWriter) = Some w1"
    and h1: "hw_h w1 = [244, 97, 252, 244, 98, 245, 244, 99, 245, 244, 100, 245, 244, 101, 245,
     244, 102, 245, 244, 103, 245, 244, 104, 245, 244, 105, 245, 244, 106,
     245, 244, 107, 245, 244, 108, 245, 244, 109, 245, 244, 110, 245, 244,
     111, 245, 244, 112, 245, 244, 113, 245, 244, 114, 245, 253, 244, 100,
     250, 2, 0, 0, 0, 0, 0, 0, 0, 244, 99, 250, 1, 0, 0, 0, 0, 0, 0, 0]"
    using outer_map_fresh_stream by auto
  obtain w2 where w2: "writeMapHash double_cap outer_map (Reset used_writer) = Some w2"
    and h2: "hw_h w2 = [244, 97, 252, 244, 98, 245, 244, 99, 245, 244, 100, 245, 244, 101, 245,
     244, 102, 245, 244, 103, 245, 244, 104, 245, 244, 105, 245, 244, 106,
     245, 244, 107, 245, 244, 108, 245, 244, 109, 245, 244, 110, 245, 244,
     111, 245, 244, 112, 245, 244, 113, 245, 244, 114, 245, 253, 244, 99, 250,
     1, 0, 0, 0, 0, 0, 0, 0, 244, 100, 250, 2, 0, 0, 0, 0, 0, 0, 0]"
    using outer_map_used_stream by auto
  have g1: "map_option fst (MapHash double_cap newHashWriter outer_map) = Some (digest_of (hw_h w1))"
    unfolding MapHash_fst w1 by simp
  have g2: "map_option fst (MapHash double_cap used_writer outer_map) = Some (digest_of (hw_h w2))"
    unfolding MapHash_fst w2 by simp
  have t1: "take 8 (digest_of (hw_h w1)) = [36, 26, 15, 225, 233, 169, 248, 220]"
    using outer_map_sums by (simp add: digest_of_def h1 length_be_bytes)
  have t2: "take 8 (digest_of (hw_h w2)) = [125, 90, 86, 243, 64, 227, 137, 140]"
    using outer_map_sums by (simp add: digest_of_def h2 length_be_bytes)
  have f1: "map_option (take 8 \<circ> fst) (MapHash double_cap newHashWriter outer_map)
       = Some [36, 26, 15, 225, 233, 169, 248, 220]"
    using g1 t1 by auto
  have f2: "map_option (take 8 \<circ> fst) (MapHash double_cap used_writer outer_map)
       = Some [125, 90, 86, 243, 64, 227, 137, 140]"
    using g2 t2 by auto
  have "map_option fst (MapHash double_cap used_writer outer_map)
       \<noteq> map_option fst (MapHash double_cap newHashWriter outer_map)"
  proof
    assume "map_option fst (MapHash double_cap used_writer outer_map)
       = map_option fst (MapHash double_cap newHashWriter outer_map)"
    then show False using g1 g2 t1 t2 by auto
  qed
  then show ?thesis using inv f1 f2 by simp
qed

section \<open>Injectivity of the encoder\<close>

text \<open>
  C2 as stated fails: payloads are written without escaping or length, so a payload
  byte in the marker range can stand for a marker. The slice of the two byte
  sequences 01 and 02 and the slice of the single byte sequence 01 F6 02 are
  different values, and both feed the stream FE F6 01 F6 02 FF.
\<close>

theorem encoder_injective_counterexample:
  "VSlice [VBytes [1], VBytes [2]] \<noteq> VSlice [VBytes [1, 0xF6, 2]]
   \<and> map_option hw_h (writeValueHash double_cap (VSlice [VBytes [1], VBytes [2]])
        (Reset newHashWriter)) = Some [0xFE, 0xF6, 1, 0xF6, 2, 0xFF]
   \<and> map_option hw_h (writeValueHash double_cap (VSlice [VBytes [1, 0xF6, 2]])
        (Reset newHashWriter)) = Some [0xFE, 0xF6, 1, 0xF6, 2, 0xFF]"
  by code_simp

text \<open>
  C2, amended. Take two values in which no string, byte sequence or map key
  contains a byte from 0xF4 to 0xFF, every variant is one of the eight recognized
  ones, maps have unique keys and no map with two or more entries lies inside a
  map. If the encoder, from any two pooled writers, feeds the same byte stream for
  both, then the two values are equal up to the insertion order of map entries.
\<close>

theorem encoder_injective:
  assumes "pool_inv hw" and "pool_inv hw'" and "regular v" and "regular v'"
    and "clean v" and "clean v'"
    and "map_option hw_h (writeValueHash gc v (Reset hw))
       = map_option hw_h (writeValueHash gc v' (Reset hw'))"
  shows "canon v = canon v'"
proof -
  from writeValueHash_regular [OF assms(3), of "Reset hw" gc] assms(1)
  obtain w where w: "writeValueHash gc v (Reset hw) = Some w" "hw_h w = canonical_encoding v"
    by auto
  from writeValueHash_regular [OF assms(4), of "Reset hw'" gc] assms(2)
  obtain w' where w': "writeValueHash gc v' (Reset hw') = Some w'"
      "hw_h w' = canonical_encoding v'"
    by auto
  have "canonical_encoding v @ [] = canonical_encoding v' @ []"
    using assms(7) w w' by simp
  from encoding_inj [OF assms(5,6) _ _ this] show ?thesis by simp
qed

theorem encoder_injective_witness:
  "canon (VMap [([98], VInt 2), ([97], VStr [120])])
     = canon (VMap [([97], VStr [120]), ([98], VInt 2)])"
proof -
  have "map_option hw_h (writeValueHash double_cap (VMap [([98], VInt 2), ([97], VStr [120])])
          (Reset newHashWriter))
      = map_option hw_h (writeValueHash double_cap (VMap [([97], VStr [120]), ([98], VInt 2)])
          (Reset newHashWriter))"
    by code_simp
  from encoder_injective [OF pool_inv_newHashWriter pool_inv_newHashWriter _ _ _ _ this]
  show ?thesis by (simp add: plain_def)
qed

section \<open>Termination\<close>

text \<open>
  C10. The encoder is defined by well-founded recursion: every recursive call is on
  a value nested in the argument or on the rest of a slice, and the loop over the
  keys counts up to its bound (the termination proof of \<open>writeValueHash\<close>). The
  recursion is no deeper than the nesting of the input: for every value, writer
  and growth policy, a budget of more nested calls of \<^verbatim>\<open>writeValueHash\<close> than the
  nesting depth of the value is never exhausted, and the bounded encoder then
  computes what the encoder computes; likewise for \<^verbatim>\<open>writeMapHash\<close> with a budget of
  at least the depth of the map.
\<close>

theorem encoder_terminates_within_depth:
  "(depth v < d \<longrightarrow> writeValueHash_within d gc v w = Some (writeValueHash gc v w))
   \<and> (depth (VMap m) \<le> d \<longrightarrow> writeMapHash_within d gc m w = Some (writeMapHash gc m w))"
  using within_depth(1) [of v d gc w] within_depth(2) [of m d gc w] by blast

theorem encoder_terminates_within_depth_witness:
  "writeValueHash_within 3 double_cap (VSlice [VMap [([97], VInt 1)]]) newHashWriter
     = Some (writeValueHash double_cap (VSlice [VMap [([97], VInt 1)]]) newHashWriter)
   \<and> writeMapHash_within 1 double_cap [([97], VInt 1)] newHashWriter
     = Some (writeMapHash double_cap [([97], VInt 1)] newHashWriter)"
  using encoder_terminates_within_depth [of "VSlice [VMap [([97], VInt 1)]]" 3 double_cap
      newHashWriter "[([97], VInt 1)]" ]
    encoder_terminates_within_depth [of VEmpty 1 double_cap newHashWriter "[([97], VInt 1)]"]
  by (simp del: writeValueHash.simps writeMapHash.simps writeValueHash_within.simps
      writeMapHash_within.simps)

section \<open>Digests of the NaN bit patterns\<close>

text \<open>
  The stream of a \<^verbatim>\<open>Double\<close> has nine bytes, so XXH64 takes no stripe: the digest
  is the finalisation of one eight-byte word and one byte, and the second half of
  the digest that of the same word and two bytes. Every step of the finalisation
  is a bijection of the 64-bit words: the multiplication by an odd prime, the
  rotation, the exclusive or with a shifted copy, and the addition of a constant.
\<close>

lemma mul_prime1_inj: "x * prime1 = y * prime1 \<Longrightarrow> x = y"
proof -
  assume a: "x * prime1 = y * prime1"
  have i: "prime1 * 614540362697595703 = 1" by (simp add: prime1_def)
  have "x = x * prime1 * 614540362697595703" by (simp add: mult.assoc i)
  also have "\<dots> = y * prime1 * 614540362697595703" by (simp add: a)
  also have "\<dots> = y" by (simp add: mult.assoc i)
  finally show ?thesis .
qed

lemma mul_prime2_inj: "x * prime2 = y * prime2 \<Longrightarrow> x = y"
proof -
  assume a: "x * prime2 = y * prime2"
  have i: "prime2 * 839798700976720815 = 1" by (simp add: prime2_def)
  have "x = x * prime2 * 839798700976720815" by (simp add: mult.assoc i)
  also have "\<dots> = y * prime2 * 839798700976720815" by (simp add: a)
  also have "\<dots> = y" by (simp add: mult.assoc i)
  finally show ?thesis .
qed

lemma mul_prime3_inj: "x * prime3 = y * prime3 \<Longrightarrow> x = y"
proof -
  assume a: "x * prime3 = y * prime3"
  have i: "prime3 * 16855272203555305545 = 1" by (simp add: prime3_def)
  have "x = x * prime3 * 16855272203555305545" by (simp add: mult.assoc i)
  also have "\<dots> = y * prime3 * 16855272203555305545" by (simp add: a)
  also have "\<dots> = y" by (simp add: mult.assoc i)
  finally show ?thesis .
qed

lemma bit_rol:
  assumes "0 < r" "r < 64" "n < 64"
  shows "bit (rol r x) n = bit x (if r \<le> n then n - r else 64 - r + n)"
proof (cases "r \<le> n")
  case True
  have "\<not> bit x (64 - r + n)" using True assms
    by (auto dest!: bit_imp_le_length)
  then show ?thesis using True assms
    by (simp add: rol_def bit_or_iff bit_push_bit_iff bit_drop_bit_eq)
next
  case False
  then show ?thesis using assms
    by (simp add: rol_def bit_or_iff bit_push_bit_iff bit_drop_bit_eq)
qed

lemma rol_inj:
  assumes "0 < r" "r < 64" "rol r x = rol r y"
  shows "x = y"
proof (rule bit_eqI)
  fix m
  assume "possible_bit TYPE(64 word) m"
  then have m: "m < 64" by (simp add: possible_bit_word)
  show "bit x m = bit y m"
  proof (cases "m < 64 - r")
    case True
    then have n: "m + r < 64" "r \<le> m + r" by simp_all
    have "bit (rol r x) (m + r) = bit (rol r y) (m + r)" by (simp add: assms(3))
    then show ?thesis
      unfolding bit_rol [OF assms(1,2) n(1)] using n(2) by simp
  next
    case False
    then have n: "m - (64 - r) < 64" "\<not> r \<le> m - (64 - r)" "64 - r + (m - (64 - r)) = m"
      using m assms(1,2) by simp_all
    have "bit (rol r x) (m - (64 - r)) = bit (rol r y) (m - (64 - r))" by (simp add: assms(3))
    then show ?thesis
      unfolding bit_rol [OF assms(1,2) n(1)] using n(2,3) by simp
  qed
qed

lemma xorshift_inj:
  fixes x y :: "64 word"
  assumes "22 \<le> k" and "x XOR drop_bit k x = y XOR drop_bit k y"
  shows "x = y"
proof -
  define e where "e = x XOR y"
  have "e XOR drop_bit k e = (x XOR drop_bit k x) XOR (y XOR drop_bit k y)"
    by (simp add: e_def drop_bit_xor ac_simps)
  then have "e XOR drop_bit k e = 0" by (simp add: assms(2))
  then have "(e XOR drop_bit k e) XOR drop_bit k e = drop_bit k e" by simp
  then have 1: "e = drop_bit k e" by (simp add: xor.assoc)
  have "drop_bit k (drop_bit k (drop_bit k e)) = drop_bit k (drop_bit k e)"
    using 1 by simp
  also have "\<dots> = drop_bit k e" using 1 by simp
  also have "\<dots> = e" using 1 by simp
  finally have "e = drop_bit (k + (k + k)) e" by (simp add: drop_bit_drop_bit)
  moreover have "drop_bit (k + (k + k)) e = 0"
  proof (rule bit_eqI)
    fix n
    have "\<not> bit e (k + (k + k) + n)" using assms(1)
      by (auto dest!: bit_imp_le_length)
    then show "bit (drop_bit (k + (k + k)) e) n = bit (0 :: 64 word) n"
      by (simp add: bit_drop_bit_eq)
  qed
  ultimately have "e = 0" by simp
  then have "(x XOR y) XOR y = 0 XOR y" by (simp only: e_def)
  then show ?thesis by (simp add: xor.assoc)
qed

lemma avalanche_inj: "avalanche x = avalanche y \<Longrightarrow> x = y"
proof -
  assume a: "avalanche x = avalanche y"
  define x1 where "x1 = (x XOR drop_bit 33 x) * prime2"
  define y1 where "y1 = (y XOR drop_bit 33 y) * prime2"
  define x2 where "x2 = (x1 XOR drop_bit 29 x1) * prime3"
  define y2 where "y2 = (y1 XOR drop_bit 29 y1) * prime3"
  have "x2 XOR drop_bit 32 x2 = y2 XOR drop_bit 32 y2"
    using a by (simp add: avalanche_def Let_def x1_def x2_def y1_def y2_def)
  then have "x2 = y2" by (rule xorshift_inj [rotated]) simp
  then have "x1 XOR drop_bit 29 x1 = y1 XOR drop_bit 29 y1"
    unfolding x2_def y2_def by (rule mul_prime3_inj)
  then have "x1 = y1" by (rule xorshift_inj [rotated]) simp
  then have "x XOR drop_bit 33 x = y XOR drop_bit 33 y"
    unfolding x1_def y1_def by (rule mul_prime2_inj)
  then show "x = y" by (rule xorshift_inj [rotated]) simp
qed

lemma be_bytes_inj:
  assumes "be_bytes x = be_bytes y"
  shows "x = y"
proof (rule bit_eqI)
  fix n
  assume "possible_bit TYPE(64 word) n"
  then have n: "n < 64" by (simp add: possible_bit_word)
  have e: "(ucast (drop_bit (8 * i) x) :: byte) = ucast (drop_bit (8 * i) y)" if "i < 8" for i
  proof -
    have "i \<in> {0, 1, 2, 3, 4, 5, 6, 7}" using that by auto
    then show ?thesis using assms by (auto simp: be_bytes_def)
  qed
  have "bit (ucast (drop_bit (8 * (n div 8)) x) :: byte) (n mod 8)
      = bit (ucast (drop_bit (8 * (n div 8)) y) :: byte) (n mod 8)"
    using e [of "n div 8"] n by simp
  then show "bit x n = bit y n"
    by (simp add: bit_simps)
qed

declare tail8.simps [simp del] stripes.simps [simp del]

lemma bit_le_word:
  "length bs \<le> 8 \<Longrightarrow>
     bit (le_word bs) n \<longleftrightarrow> n div 8 < length bs \<and> bit (bs ! (n div 8)) (n mod 8)"
proof (induction bs arbitrary: n)
  case Nil
  then show ?case by simp
next
  case (Cons b bs)
  then have len: "length bs \<le> 7" by simp
  show ?case
  proof (cases "n < 8")
    case True
    then show ?thesis by (simp add: bit_or_iff bit_ucast_iff bit_push_bit_iff)
  next
    case False
    then have n8: "8 \<le> n" by simp
    then have dv: "n div 8 = Suc ((n - 8) div 8)" and md: "n mod 8 = (n - 8) mod 8"
      by (simp_all add: le_div_geq le_mod_geq)
    have ih: "bit (le_word bs) (n - 8)
        \<longleftrightarrow> (n - 8) div 8 < length bs \<and> bit (bs ! ((n - 8) div 8)) ((n - 8) mod 8)"
      using len by (intro Cons.IH) simp
    have nb: "\<not> bit (ucast b :: 64 word) n"
      using False by (auto simp: bit_ucast_iff dest: bit_imp_le_length)
    have small: "n < 64" if "(n - 8) div 8 < length bs"
      using that len by (simp add: less_mult_imp_div_less)
    show ?thesis
      using n8 nb ih small
      by (auto simp: bit_or_iff bit_push_bit_iff dv md possible_bit_word)
  qed
qed

lemma le_word_inj:
  assumes "length bs = length cs" "length bs \<le> 8" "le_word bs = le_word cs"
  shows "bs = cs"
proof (rule nth_equalityI [OF assms(1)])
  fix i
  assume i: "i < length bs"
  show "bs ! i = cs ! i"
  proof (rule bit_eqI)
    fix j
    assume "possible_bit TYPE(byte) j"
    then have j: "j < 8" by (simp add: possible_bit_word)
    then have dm: "(8 * i + j) div 8 = i" "(8 * i + j) mod 8 = j" by simp_all
    have "bit (le_word bs) (8 * i + j) = bit (le_word cs) (8 * i + j)"
      by (simp add: assms(3))
    then show "bit (bs ! i) j = bit (cs ! i) j"
      using i j assms(1,2) by (simp add: bit_le_word dm)
  qed
qed

lemma Sum64_9:
  assumes "length c = 8"
  shows "Sum64 (c @ [b]) =
     avalanche (rol 11 ((rol 27 ((prime5 + 9) XOR xxh_round 0 (le_word c)) * prime1 + prime4)
        XOR ucast b * prime5) * prime1)"
proof -
  have t: "tail8 acc (c @ [b])
      = (rol 27 (acc XOR xxh_round 0 (le_word c)) * prime1 + prime4, [b])" for acc
    using assms by (simp add: tail8.simps [of _ "c @ [b]"] tail8.simps [of _ "[b]"] u64_def)
  show ?thesis
    using assms by (simp add: Sum64_def t tail4_def)
qed

lemma Sum64_10:
  assumes "length c = 8"
  shows "Sum64 (c @ [b, e]) =
     avalanche (rol 11 ((rol 11 ((rol 27 ((prime5 + 10) XOR xxh_round 0 (le_word c)) * prime1
        + prime4) XOR ucast b * prime5) * prime1) XOR ucast e * prime5) * prime1)"
proof -
  have t: "tail8 acc (c @ [b, e])
      = (rol 27 (acc XOR xxh_round 0 (le_word c)) * prime1 + prime4, [b, e])" for acc
    using assms
    by (simp add: tail8.simps [of _ "c @ [b, e]"] tail8.simps [of _ "[b, e]"] u64_def)
  show ?thesis
    using assms by (simp add: Sum64_def t tail4_def)
qed

lemma hi5_xor: "hi5 (a XOR b) = hi5 a XOR hi5 b"
  by (rule bit_eqI) (auto simp: hi5_def bit_simps)

lemma hi5_int: "hi5 a = word_of_int (drop_bit 27 (uint a))"
  unfolding hi5_def
  by (rule bit_eqI) (auto simp: bit_simps bit_word_of_int_iff bit_uint_iff dest: bit_imp_le_length)

lemma drop_bit_add_mult_int: "drop_bit 27 ((x::int) + 134217728 * y) = drop_bit 27 x + y"
proof -
  have "(x + y * 2 ^ 27) div 2 ^ 27 = y + x div 2 ^ 27"
    by (rule div_mult_self1) simp
  then show ?thesis
    by (simp add: drop_bit_eq_div add.commute mult.commute)
qed

lemma int_core:
  fixes A K P :: int
  assumes "P = 2 ^ 27"
  shows "take_bit 5 (drop_bit 27 (take_bit 64 (A + take_bit 64 (P * K))))
       = take_bit 5 (drop_bit 27 A + K)"
proof -
  have 1: "take_bit 64 (A + take_bit 64 (P * K)) = take_bit 64 (A + P * K)"
    by (simp only: take_bit_eq_mod mod_add_right_eq)
  have 2: "take_bit 5 (drop_bit 27 (take_bit 64 X)) = take_bit 5 (drop_bit 27 X)" for X :: int
    by (rule bit_eqI) (auto simp: bit_simps)
  have "(A + 2 ^ 27 * K) div 2 ^ 27 = K + A div 2 ^ 27"
    by (rule div_mult_self2) simp
  then have 3: "drop_bit 27 (A + P * K) = drop_bit 27 A + K"
    by (simp only: assms drop_bit_eq_div add.commute)
  show ?thesis by (simp only: 1 2 3)
qed

lemma hi5_add:
  fixes p a k :: "64 word"
  assumes "p = 2 ^ 27"
  shows "hi5 (a + p * k) = hi5 a + ucast k"
proof (rule word_uint_eqI)
  have up: "uint p = 2 ^ 27" unfolding assms by (rule uint_2p) simp
  have l: "uint (hi5 (a + p * k))
      = take_bit 5 (drop_bit 27 (take_bit 64 (uint a + take_bit 64 (uint p * uint k))))"
    by (simp only: hi5_int uint_word_of_int_eq uint_word_arith_bintrs len_num0 len_num1
        len_bit0 len_bit1) simp
  have uc: "uint (ucast k :: 5 word) = take_bit 5 (uint k)"
    by (simp only: ucast_eq uint_word_of_int_eq) simp
  have r: "uint (hi5 a + ucast k) = take_bit 5 (drop_bit 27 (uint a) + uint k)"
  proof -
    have "uint (hi5 a + ucast k)
        = take_bit 5 (take_bit 5 (drop_bit 27 (uint a)) + take_bit 5 (uint k))"
      by (simp only: uint_word_arith_bintrs(1) uc hi5_int uint_word_of_int_eq) simp
    then show ?thesis by (simp only: take_bit_add)
  qed
  show "uint (hi5 (a + p * k)) = uint (hi5 a + ucast k)"
    unfolding l r by (rule int_core [OF up])
qed

lemma xor_p27:
  fixes z p :: "64 word"
  assumes "p = 2 ^ 27"
  shows "z XOR p = z + p \<or> z XOR p = z - p"
proof -
  have bp: "bit p n \<longleftrightarrow> n = 27" for n
    unfolding assms by (simp only: bit_exp_iff possible_bit_word) auto
  show ?thesis
  proof (cases "bit z 27")
    case False
    have "z AND p = 0"
    proof (rule bit_eqI)
      fix n
      show "bit (z AND p) n = bit (0 :: 64 word) n"
        using False by (cases "n = 27") (simp_all add: bit_and_iff bp)
    qed
    then show ?thesis by (simp add: disjunctive_add_eq_xor)
  next
    case True
    define w where "w = z XOR p"
    have "w AND p = 0"
    proof (rule bit_eqI)
      fix n
      show "bit (w AND p) n = bit (0 :: 64 word) n"
        using True by (cases "n = 27") (simp_all add: w_def bit_and_iff bit_xor_iff bp)
    qed
    then have "w XOR p = w + p" by (simp add: disjunctive_add_eq_xor)
    moreover have "w XOR p = z" by (simp add: w_def xor.assoc)
    ultimately have "w = z - p" by simp
    then show ?thesis by (simp add: w_def)
  qed
qed

lemma five_bit_enum:
  "\<forall>n \<in> set [0..<32].
     ((of_nat n + 7 :: 5 word) XOR ((of_nat n XOR 10) + 7) \<noteq> 10)
   \<and> ((of_nat n + 7 :: 5 word) XOR ((of_nat n XOR 10) + 25) \<noteq> 10)
   \<and> ((of_nat n + 25 :: 5 word) XOR ((of_nat n XOR 10) + 7) \<noteq> 10)
   \<and> ((of_nat n + 25 :: 5 word) XOR ((of_nat n XOR 10) + 25) \<noteq> 10)"
  by code_simp

lemma five_bit:
  fixes u :: "5 word"
  assumes "t = 7 \<or> t = 25" "t' = 7 \<or> t' = 25"
  shows "(u + t) XOR ((u XOR 10) + t') \<noteq> 10"
proof -
  have "unat u < 2 ^ LENGTH(5)" by (rule unsigned_less)
  then have "unat u \<in> set [0..<32]" by simp
  moreover have "of_nat (unat u) = u" by simp
  ultimately show ?thesis using five_bit_enum assms by metis
qed

lemma xor_swap:
  fixes a b a' b' :: "'a::len word"
  assumes "a XOR b = a' XOR b'"
  shows "a XOR a' = b XOR b'"
proof (rule bit_eqI)
  fix n
  from assms have "bit (a XOR b) n = bit (a' XOR b') n" by simp
  then show "bit (a XOR a') n = bit (b XOR b') n" by (auto simp: bit_xor_iff)
qed

lemma xor_cancel_right:
  fixes a a' b :: "'a::len word"
  assumes "a XOR b = a' XOR b"
  shows "a = a'"
proof (rule bit_eqI)
  fix n
  from assms have "bit (a XOR b) n = bit (a' XOR b) n" by simp
  then show "bit a n = bit a' n" by (auto simp: bit_xor_iff)
qed

lemma rol27_xor_1: "rol 27 (y XOR 1) = rol 27 y XOR 2 ^ 27"
proof (rule bit_eqI)
  fix n
  assume "possible_bit TYPE(64 word) n"
  then have n: "n < 64" by (simp add: possible_bit_word)
  have r: "(0::nat) < 27" "(27::nat) < 64" by simp_all
  show "bit (rol 27 (y XOR 1)) n = bit (rol 27 y XOR 2 ^ 27) n"
    unfolding bit_xor_iff bit_rol [OF r n] bit_exp_iff bit_1_iff
    using n by (auto simp: possible_bit_word)
qed

lemma after_word_inj: "after_word k c = after_word k c' \<Longrightarrow> c = c'"
proof -
  assume "after_word k c = after_word k c'"
  then have "rol 27 (k XOR xxh_round 0 c) * prime1 = rol 27 (k XOR xxh_round 0 c') * prime1"
    by (simp add: after_word_def)
  then have "rol 27 (k XOR xxh_round 0 c) = rol 27 (k XOR xxh_round 0 c')"
    by (rule mul_prime1_inj)
  then have "k XOR xxh_round 0 c = k XOR xxh_round 0 c'"
    by (rule rol_inj [rotated 2]) simp_all
  then have "xxh_round 0 c XOR k = xxh_round 0 c' XOR k" by (simp add: xor.commute)
  then have "xxh_round 0 c = xxh_round 0 c'" by (rule xor_cancel_right)
  then have "rol 31 (c * prime2) * prime1 = rol 31 (c' * prime2) * prime1"
    by (simp add: xxh_round_def)
  then have "rol 31 (c * prime2) = rol 31 (c' * prime2)" by (rule mul_prime1_inj)
  then have "c * prime2 = c' * prime2" by (rule rol_inj [rotated 2]) simp_all
  then show "c = c'" by (rule mul_prime2_inj)
qed

lemma after_word_shift:
  "hi5 (after_word (prime5 + 10) c) = hi5 (after_word (prime5 + 9) c) + 7
   \<or> hi5 (after_word (prime5 + 10) c) = hi5 (after_word (prime5 + 9) c) + 25"
proof -
  define p :: "64 word" where "p = 2 ^ 27"
  define z where "z = rol 27 ((prime5 + 9) XOR xxh_round 0 c)"
  have k: "prime5 + 10 = (prime5 + 9) XOR 1" by (simp add: prime5_def)
  have "rol 27 ((prime5 + 10) XOR xxh_round 0 c) = rol 27 (((prime5 + 9) XOR xxh_round 0 c) XOR 1)"
    unfolding k by (simp only: xor.assoc xor.commute [of 1])
  then have z10: "rol 27 ((prime5 + 10) XOR xxh_round 0 c) = z XOR p"
    by (simp only: rol27_xor_1 z_def p_def)
  have a9: "after_word (prime5 + 9) c = z * prime1 + prime4"
    by (simp only: after_word_def z_def)
  have a10: "after_word (prime5 + 10) c = (z XOR p) * prime1 + prime4"
    by (simp only: after_word_def z10)
  have t1: "ucast prime1 = (7 :: 5 word)" by (simp add: prime1_def)
  have t2: "ucast (- prime1) = (25 :: 5 word)" by (simp add: prime1_def)
  from xor_p27 [OF p_def, of z] show ?thesis
  proof
    assume "z XOR p = z + p"
    then have "after_word (prime5 + 10) c = after_word (prime5 + 9) c + p * prime1"
      by (simp only: a9 a10) (simp add: algebra_simps)
    then show ?thesis by (simp only: hi5_add [OF p_def] t1) simp
  next
    assume "z XOR p = z - p"
    then have "after_word (prime5 + 10) c = after_word (prime5 + 9) c + p * (- prime1)"
      by (simp only: a9 a10) (simp add: algebra_simps)
    then show ?thesis by (simp only: hi5_add [OF p_def] t2) simp
  qed
qed

lemma le_bytes_split_last: "le_bytes x = take 7 (le_bytes x) @ [top_byte x]"
  by (simp add: le_bytes_def top_byte_def)

lemma is_nan_top_byte:
  assumes "is_nan x"
  shows "top_byte x = 0x7F \<or> top_byte x = 0xFF"
proof -
  have e: "(0x7F :: byte) = mask 7" "(0xFF :: byte) = mask 8" "(2047 :: 64 word) = mask 11"
    by (simp_all add: mask_eq_exp_minus_1)
  have bits: "bit x (52 + i)" if "i < 11" for i
  proof -
    have "bit (take_bit 11 (drop_bit 52 x)) i = bit (mask 11 :: 64 word) i"
      using assms by (simp only: is_nan_def e)
    then show ?thesis using that
      by (simp add: bit_take_bit_iff bit_drop_bit_eq bit_mask_iff possible_bit_word)
  qed
  have low: "bit x (56 + n)" if "n < 7" for n
    using bits [of "n + 4"] that by (simp add: add.commute add.left_commute)
  show ?thesis
  proof (cases "bit x 63")
    case True
    have "top_byte x = mask 8"
    proof (rule bit_eqI)
      fix n
      assume "possible_bit TYPE(byte) n"
      then have n: "n < 8" by (simp add: possible_bit_word)
      then have "n < 7 \<or> n = 7" by auto
      then have "bit x (56 + n)" using low True by auto
      then show "bit (top_byte x) n = bit (mask 8 :: byte) n"
        using n by (simp add: top_byte_def bit_ucast_iff bit_drop_bit_eq bit_mask_iff
            possible_bit_word)
    qed
    then show ?thesis unfolding e by blast
  next
    case False
    have "top_byte x = mask 7"
    proof (rule bit_eqI)
      fix n
      assume "possible_bit TYPE(byte) n"
      then have n: "n < 8" by (simp add: possible_bit_word)
      then have c: "n < 7 \<or> n = 7" by auto
      have "bit x (56 + n) \<longleftrightarrow> n < 7" using c low False by auto
      then show "bit (top_byte x) n = bit (mask 7 :: byte) n"
        using n by (simp add: top_byte_def bit_ucast_iff bit_drop_bit_eq bit_mask_iff
            possible_bit_word)
    qed
    then show ?thesis unfolding e by blast
  qed
qed

lemma digest_states:
  assumes "length c = 8" "length c' = 8"
    and "digest_of (c @ [b]) = digest_of (c' @ [b'])"
  shows "after_word (prime5 + 9) (le_word c) XOR ucast b * prime5
       = after_word (prime5 + 9) (le_word c') XOR ucast b' * prime5"
    and "after_word (prime5 + 10) (le_word c) XOR ucast b * prime5
       = after_word (prime5 + 10) (le_word c') XOR ucast b' * prime5"
proof -
  have "be_bytes (Sum64 (c @ [b])) = be_bytes (Sum64 (c' @ [b']))
      \<and> be_bytes (Sum64 (c @ [b, 0xF3])) = be_bytes (Sum64 (c' @ [b', 0xF3]))"
    using assms(3) by (simp add: digest_of_def extraByte_def length_be_bytes)
  then have s9: "Sum64 (c @ [b]) = Sum64 (c' @ [b'])"
    and s10: "Sum64 (c @ [b, 0xF3]) = Sum64 (c' @ [b', 0xF3])"
    by (simp_all add: be_bytes_inj)
  from s9 have "avalanche (rol 11 ((after_word (prime5 + 9) (le_word c)) XOR ucast b * prime5)
        * prime1)
      = avalanche (rol 11 ((after_word (prime5 + 9) (le_word c')) XOR ucast b' * prime5)
        * prime1)"
    by (simp only: Sum64_9 [OF assms(1)] Sum64_9 [OF assms(2)] after_word_def)
  then have "rol 11 ((after_word (prime5 + 9) (le_word c)) XOR ucast b * prime5) * prime1
      = rol 11 ((after_word (prime5 + 9) (le_word c')) XOR ucast b' * prime5) * prime1"
    by (rule avalanche_inj)
  then have "rol 11 ((after_word (prime5 + 9) (le_word c)) XOR ucast b * prime5)
      = rol 11 ((after_word (prime5 + 9) (le_word c')) XOR ucast b' * prime5)"
    by (rule mul_prime1_inj)
  then show "after_word (prime5 + 9) (le_word c) XOR ucast b * prime5
       = after_word (prime5 + 9) (le_word c') XOR ucast b' * prime5"
    by (rule rol_inj [rotated 2]) simp_all
  from s10 have "avalanche (rol 11 (rol 11 ((after_word (prime5 + 10) (le_word c))
          XOR ucast b * prime5) * prime1 XOR ucast (0xF3 :: byte) * prime5) * prime1)
      = avalanche (rol 11 (rol 11 ((after_word (prime5 + 10) (le_word c'))
          XOR ucast b' * prime5) * prime1 XOR ucast (0xF3 :: byte) * prime5) * prime1)"
    by (simp only: Sum64_10 [OF assms(1)] Sum64_10 [OF assms(2)] after_word_def)
  then have "rol 11 (rol 11 ((after_word (prime5 + 10) (le_word c))
          XOR ucast b * prime5) * prime1 XOR ucast (0xF3 :: byte) * prime5) * prime1
      = rol 11 (rol 11 ((after_word (prime5 + 10) (le_word c'))
          XOR ucast b' * prime5) * prime1 XOR ucast (0xF3 :: byte) * prime5) * prime1"
    by (rule avalanche_inj)
  then have "rol 11 (rol 11 ((after_word (prime5 + 10) (le_word c))
          XOR ucast b * prime5) * prime1 XOR ucast (0xF3 :: byte) * prime5)
      = rol 11 (rol 11 ((after_word (prime5 + 10) (le_word c'))
          XOR ucast b' * prime5) * prime1 XOR ucast (0xF3 :: byte) * prime5)"
    by (rule mul_prime1_inj)
  then have "rol 11 ((after_word (prime5 + 10) (le_word c))
          XOR ucast b * prime5) * prime1 XOR ucast (0xF3 :: byte) * prime5
      = rol 11 ((after_word (prime5 + 10) (le_word c'))
          XOR ucast b' * prime5) * prime1 XOR ucast (0xF3 :: byte) * prime5"
    by (rule rol_inj [rotated 2]) simp_all
  then have "rol 11 ((after_word (prime5 + 10) (le_word c)) XOR ucast b * prime5) * prime1
      = rol 11 ((after_word (prime5 + 10) (le_word c')) XOR ucast b' * prime5) * prime1"
    by (rule xor_cancel_right)
  then have "rol 11 ((after_word (prime5 + 10) (le_word c)) XOR ucast b * prime5)
      = rol 11 ((after_word (prime5 + 10) (le_word c')) XOR ucast b' * prime5)"
    by (rule mul_prime1_inj)
  then show "after_word (prime5 + 10) (le_word c) XOR ucast b * prime5
       = after_word (prime5 + 10) (le_word c') XOR ucast b' * prime5"
    by (rule rol_inj [rotated 2]) simp_all
qed

lemma hi5_top_bytes:
  "hi5 (ucast (0x7F :: byte) * prime5 XOR ucast (0xFF :: byte) * prime5) = 10"
  "hi5 (ucast (0xFF :: byte) * prime5 XOR ucast (0x7F :: byte) * prime5) = 10"
  by (simp_all add: hi5_def prime5_def)

lemma xor5_other: "u XOR u' = (10 :: 5 word) \<Longrightarrow> u' = u XOR 10"
proof -
  assume "u XOR u' = 10"
  then have "u XOR (u XOR u') = u XOR 10" by simp
  then show "u' = u XOR 10" by (simp add: xor.assoc [symmetric])
qed

lemma top_bytes_differ_impossible:
  assumes e9: "after_word (prime5 + 9) w XOR B = after_word (prime5 + 9) w' XOR B'"
    and e10: "after_word (prime5 + 10) w XOR B = after_word (prime5 + 10) w' XOR B'"
    and d: "hi5 (B XOR B') = 10"
  shows False
proof -
  from e9 have "after_word (prime5 + 9) w XOR after_word (prime5 + 9) w' = B XOR B'"
    by (rule xor_swap)
  then have "hi5 (after_word (prime5 + 9) w) XOR hi5 (after_word (prime5 + 9) w') = 10"
    using d by (simp add: hi5_xor [symmetric])
  then have u': "hi5 (after_word (prime5 + 9) w') = hi5 (after_word (prime5 + 9) w) XOR 10"
    by (rule xor5_other)
  from e10 have "after_word (prime5 + 10) w XOR after_word (prime5 + 10) w' = B XOR B'"
    by (rule xor_swap)
  then have x10: "hi5 (after_word (prime5 + 10) w) XOR hi5 (after_word (prime5 + 10) w') = 10"
    using d by (simp add: hi5_xor [symmetric])
  obtain t where t: "t = 7 \<or> t = 25"
    and st: "hi5 (after_word (prime5 + 10) w) = hi5 (after_word (prime5 + 9) w) + t"
    using after_word_shift [of w] by blast
  obtain t' where t': "t' = 7 \<or> t' = 25"
    and st': "hi5 (after_word (prime5 + 10) w') = hi5 (after_word (prime5 + 9) w') + t'"
    using after_word_shift [of w'] by blast
  have "(hi5 (after_word (prime5 + 9) w) + t)
      XOR ((hi5 (after_word (prime5 + 9) w) XOR 10) + t') = 10"
    using x10 by (simp only: st st' u')
  then show False using five_bit [OF t t'] by blast
qed

lemma take7_cons: "length bs = 8 \<Longrightarrow> a # take 7 bs = take 8 (a # bs)"
  by simp

lemma dbl_digest_inj:
  assumes dg: "digest_of (0xFB # le_bytes x) = digest_of (0xFB # le_bytes y)"
    and tx: "top_byte x = 0x7F \<or> top_byte x = 0xFF"
    and ty: "top_byte y = 0x7F \<or> top_byte y = 0xFF"
  shows "x = y"
proof -
  define c where "c = 0xFB # take 7 (le_bytes x)"
  define c' where "c' = 0xFB # take 7 (le_bytes y)"
  have lc: "length c = 8" "length c' = 8"
    by (simp_all add: c_def c'_def length_le_bytes)
  have sx: "0xFB # le_bytes x = c @ [top_byte x]"
    unfolding c_def using le_bytes_split_last [of x] by simp
  have sy: "0xFB # le_bytes y = c' @ [top_byte y]"
    unfolding c'_def using le_bytes_split_last [of y] by simp
  from dg have dg': "digest_of (c @ [top_byte x]) = digest_of (c' @ [top_byte y])"
    by (simp only: sx sy)
  note e9 = digest_states(1) [OF lc dg']
  note e10 = digest_states(2) [OF lc dg']
  show ?thesis
  proof (cases "top_byte x = top_byte y")
    case True
    from e9 have "after_word (prime5 + 9) (le_word c) = after_word (prime5 + 9) (le_word c')"
      unfolding True by (rule xor_cancel_right)
    then have "le_word c = le_word c'" by (rule after_word_inj)
    then have "c = c'" by (rule le_word_inj [rotated 2]) (simp_all add: lc)
    then have "take 7 (le_bytes x) = take 7 (le_bytes y)" by (simp add: c_def c'_def)
    then have "le_bytes x = le_bytes y"
      using le_bytes_split_last [of x] le_bytes_split_last [of y] True by simp
    then show ?thesis by (rule le_bytes_inj)
  next
    case False
    then have "(top_byte x = 0x7F \<and> top_byte y = 0xFF)
        \<or> (top_byte x = 0xFF \<and> top_byte y = 0x7F)"
      using tx ty by auto
    then have "hi5 (ucast (top_byte x) * prime5 XOR ucast (top_byte y) * prime5) = 10"
      using hi5_top_bytes by auto
    then have False by (rule top_bytes_differ_impossible [OF e9 e10])
    then show ?thesis ..
  qed
qed

lemma ValueHash_Double:
  assumes "pool_inv hw"
  shows "map_option fst (ValueHash gc hw (VDouble x)) = Some (digest_of (0xFB # le_bytes x))"
    and "map_option hw_h (writeValueHash gc (VDouble x) (Reset hw)) = Some (0xFB # le_bytes x)"
proof -
  have "pool_inv (Reset hw)" using assms by (simp add: pool_inv_def)
  then have "\<exists>w'. writeValueHash gc (VDouble x) (Reset hw) = Some w'
      \<and> hw_h w' = hw_h (Reset hw) @ canonical_encoding (VDouble x) \<and> pool_inv w'"
    by (intro writeValueHash_regular) simp_all
  then obtain w' where w': "writeValueHash gc (VDouble x) (Reset hw) = Some w'"
    and h: "hw_h w' = 0xFB # le_bytes x"
    by (auto simp: valDoublePrefix_def)
  show "map_option fst (ValueHash gc hw (VDouble x)) = Some (digest_of (0xFB # le_bytes x))"
    unfolding ValueHash_fst w' by (simp add: h)
  show "map_option hw_h (writeValueHash gc (VDouble x) (Reset hw)) = Some (0xFB # le_bytes x)"
    unfolding w' by (simp add: h)
qed

lemma is_nan_examples:
  "is_nan 0x7FF8000000000000" "is_nan 0x7FF8000000000001" "is_nan 0xFFF8000000000000"
  "\<not> is_nan 0x7FF0000000000000" "\<not> is_nan 0x3FF0000000000000"
  by (simp_all add: is_nan_def)

text \<open>
  C7. For every pair of \<^verbatim>\<open>Double\<close> values holding different NaN bit patterns, the
  digests differ: a \<^verbatim>\<open>Double\<close> is encoded as the double marker followed by the eight
  bytes of its IEEE 754 bit pattern, least significant byte first, so the values
  are distinguished by bit pattern and not by numeric equality. This holds for
  every writer of the pool, also for two different writers, and every growth
  policy.
\<close>

theorem NaN_bit_patterns_hash_differently:
  assumes "pool_inv hw" and "pool_inv hw'"
    and "is_nan x" and "is_nan y" and "x \<noteq> y"
  shows "map_option hw_h (writeValueHash gc (VDouble x) (Reset hw))
           = Some (valDoublePrefix @ le_bytes x)
       \<and> map_option fst (ValueHash gc hw (VDouble x)) = Some (digest_of (0xFB # le_bytes x))
       \<and> map_option fst (ValueHash gc hw' (VDouble y)) = Some (digest_of (0xFB # le_bytes y))
       \<and> map_option fst (ValueHash gc hw (VDouble x))
           \<noteq> map_option fst (ValueHash gc hw' (VDouble y))"
proof -
  have "digest_of (0xFB # le_bytes x) \<noteq> digest_of (0xFB # le_bytes y)"
    using dbl_digest_inj [OF _ is_nan_top_byte [OF assms(3)] is_nan_top_byte [OF assms(4)]]
      assms(5) by blast
  then have ne: "Some (digest_of (0xFB # le_bytes x)) \<noteq> Some (digest_of (0xFB # le_bytes y))"
    by simp
  have s: "map_option hw_h (writeValueHash gc (VDouble x) (Reset hw))
      = Some (valDoublePrefix @ le_bytes x)"
    using ValueHash_Double(2) [OF assms(1), of gc x]
    by (simp only: valDoublePrefix_def append_Cons append_Nil)
  note dx = ValueHash_Double(1) [OF assms(1), of gc x]
  note dy = ValueHash_Double(1) [OF assms(2), of gc y]
  show ?thesis
  proof (intro conjI)
    show "map_option fst (ValueHash gc hw (VDouble x))
        \<noteq> map_option fst (ValueHash gc hw' (VDouble y))"
      unfolding dx dy by (rule ne)
  qed (rule s dx dy)+
qed

text \<open>
  The quiet NaN \<^verbatim>\<open>0x7FF8000000000000\<close> and the NaN \<^verbatim>\<open>0xFFF8000000000001\<close>, of the other
  sign and another payload, on a new writer.
\<close>

theorem NaN_bit_patterns_hash_differently_witness:
  "pool_inv newHashWriter \<and> is_nan 0x7FF8000000000000 \<and> is_nan 0xFFF8000000000001
   \<and> (0x7FF8000000000000 :: 64 word) \<noteq> 0xFFF8000000000001
   \<and> map_option fst (ValueHash double_cap newHashWriter (VDouble 0x7FF8000000000000))
       \<noteq> map_option fst (ValueHash double_cap newHashWriter (VDouble 0xFFF8000000000001))"
  using NaN_bit_patterns_hash_differently [of newHashWriter newHashWriter
      "0x7FF8000000000000" "0xFFF8000000000001" double_cap]
  by (simp add: pool_inv_newHashWriter is_nan_def)

end
